theory Spec2Isabelle
  imports Main "HOL-Library.Word" "HOL-Library.AList"
begin

section \<open>JSON values and the jansson calls the sources use\<close>

text \<open>
  A \<open>json_t *\<close> is a nullable pointer to a JSON value: \<open>json option\<close>, with \<open>None\<close> for
  \<open>NULL\<close>. An object keeps its members in insertion order, as jansson does. A real is
  a finite double, mantissa and binary exponent.
\<close>

datatype json =
    JNull
  | JBool bool
  | JInt int
  | JReal int int
  | JString string
  | JArray "json list"
  | JObject "(string \<times> json) list"

fun json_object_get :: "json option \<Rightarrow> string \<Rightarrow> json option" where
  "json_object_get (Some (JObject kvs)) key = map_of kvs key"
| "json_object_get _ key = None"

fun json_is_array :: "json option \<Rightarrow> bool" where
  "json_is_array (Some (JArray xs)) = True"
| "json_is_array _ = False"

fun json_is_string :: "json option \<Rightarrow> bool" where
  "json_is_string (Some (JString s)) = True"
| "json_is_string _ = False"

fun json_array_size :: "json option \<Rightarrow> nat" where
  "json_array_size (Some (JArray xs)) = length xs"
| "json_array_size _ = 0"

fun json_array_get :: "json option \<Rightarrow> nat \<Rightarrow> json option" where
  "json_array_get (Some (JArray xs)) i = (if i < length xs then Some (xs ! i) else None)"
| "json_array_get _ i = None"

fun json_string_value :: "json option \<Rightarrow> string option" where
  "json_string_value (Some (JString s)) = Some s"
| "json_string_value _ = None"

fun json_object_set_new :: "json \<Rightarrow> string \<Rightarrow> json \<Rightarrow> json" where
  "json_object_set_new (JObject kvs) key v = JObject (AList.update key v kvs)"
| "json_object_set_new j key v = j"

fun json_array_append :: "json \<Rightarrow> json \<Rightarrow> json" where
  "json_array_append (JArray xs) v = JArray (xs @ [v])"
| "json_array_append j v = j"

text \<open>
  The elements \<open>json_array_get a 0\<close>, ..., \<open>json_array_get a (json_array_size a - 1)\<close> that a
  loop \<open>for (i = 0; i < json_array_size(a); i++)\<close> with a \<open>size_t\<close> counter visits.
\<close>

fun json_array_elems :: "json option \<Rightarrow> json list" where
  "json_array_elems (Some (JArray xs)) = xs"
| "json_array_elems _ = []"

section \<open>Roots, the registry and the process state\<close>

type_synonym root_ptr = nat

datatype log_level = W_LOG_ERR | W_LOG_DBG | W_LOG_FATAL

datatype pending_queue = Primary | SymlinkTargets

text \<open>
  What a call does beyond changing the state is recorded, in order, in a trace: the log
  lines (without their final newline; \<open>LogNum\<close> carries the number that the format
  prints) and the calls into the collaborators whose code is outside these sources.
\<close>

datatype event =
    Log log_level string
  | LogNum log_level string int
  | PendingCollInit root_ptr pending_queue
  | PendingCollDrain root_ptr pending_queue
  | PendingCollDestroy root_ptr pending_queue
  | RootDirReset root_ptr
  | WatcherRootDtor root_ptr
  | CancelSubscriptions root_ptr
  | ConfigDecref root_ptr
  | ReapChildren
  | SignalRootThreads root_ptr
  | RootStart root_ptr
  | Usleep int

datatype trigger_input_style = input_dev_null | input_json | input_name_list

record watchman_trigger_command =
  triggername :: string
  query :: json
  definition_json :: json
  command :: json
  stdin_style :: trigger_input_style
  current_proc :: int

text \<open>
  \<open>watchman_root::Inner\<close>: the part of a root that teardown destroys and constructs again.
  Only the members these sources touch are kept.
\<close>

record Inner =
  number :: int
  view_root_dir :: "string option"
  last_cmd_timestamp :: int
  pending_symlink_targets :: "string list"

text \<open>
  A root. The \<open>ignore\<close> set is kept as the list of the
  additions made to it, each with its \<open>is_vcs_ignore\<close> flag. \<open>cancelled\<close> says whether
  \<open>w_root_cancel\<close> has run for this root.
\<close>

record watchman_root =
  root_path :: string
  refcnt :: int
  case_sensitive :: bool
  config_file :: "json option"
  trigger_settle :: int
  gc_age :: int
  gc_interval :: int
  idle_reap_age :: int
  ignore :: "(string \<times> bool) list"
  pending :: "string list"
  watcher_ops :: "string option"
  inner :: Inner
  triggers :: "(string \<times> watchman_trigger_command) list"
  cancelled :: bool

text \<open>
  The process: the heap of root objects, the registry \<open>watched_roots\<close> (an
  \<open>unordered_map\<close>; the list order stands for its iteration order), the counters
  \<open>live_roots\<close> and \<open>next_root_number\<close>, and the trace. Locks are not modelled: every
  function below runs alone, from its first statement to its last.
\<close>

record state =
  heap :: "root_ptr \<rightharpoonup> watchman_root"
  next_addr :: root_ptr
  watched_roots :: "(string \<times> root_ptr) list"
  live_roots :: int
  next_root_number :: int
  trace :: "event list"

datatype fault = UseAfterFree | OutOfBounds | ProcessAbort

text \<open>
  A call returns (\<open>Ok\<close>), never returns (\<open>Diverges\<close>), or leaves defined behaviour
  (\<open>Fault\<close>): it reads a root that has been deleted, reads past the end of a string, or
  logs at \<open>W_LOG_FATAL\<close>, which aborts the process.
\<close>

datatype 'a result = Ok 'a | Diverges | Fault fault

fun rbind :: "'a result \<Rightarrow> ('a \<Rightarrow> 'b result) \<Rightarrow> 'b result" where
  "rbind (Ok x) f = f x"
| "rbind Diverges f = Diverges"
| "rbind (Fault e) f = Fault e"

definition with_root :: "root_ptr \<Rightarrow> state \<Rightarrow> (watchman_root \<Rightarrow> 'a result) \<Rightarrow> 'a result" where
  "with_root p s f = (case heap s p of None \<Rightarrow> Fault UseAfterFree | Some r \<Rightarrow> f r)"

definition put_root :: "root_ptr \<Rightarrow> watchman_root \<Rightarrow> state \<Rightarrow> state" where
  "put_root p r s = s\<lparr>heap := (heap s)(p \<mapsto> r)\<rparr>"

definition emit :: "event \<Rightarrow> state \<Rightarrow> state" where
  "emit e s = s\<lparr>trace := trace s @ [e]\<rparr>"

text \<open>\<open>map->erase(it)\<close> for the iterator that \<open>map->find(key)\<close> returned.\<close>

fun erase :: "'k \<Rightarrow> ('k \<times> 'v) list \<Rightarrow> ('k \<times> 'v) list" where
  "erase k [] = []"
| "erase k ((k', v) # kvs) = (if k' = k then kvs else (k', v) # erase k kvs)"

section \<open>What the sources take from outside\<close>

text \<open>
  The macros, the platform, the file system and the helper functions that these sources
  call but do not contain are parameters of the model, under the names the sources use:
  \<^item> \<open>is_slash\<close>, \<open>WATCHMAN_DIR_SEP\<close>, \<open>WATCHMAN_NAME_MAX\<close> and the four \<open>DEFAULT_*\<close>
    macros;
  \<^item> \<open>w_path_exists\<close> (with the \<open>errno\<close> it leaves) and \<open>json_load_file\<close> (the parsed
    value, or the text of the parse error);
  \<^item> \<open>cfg_get_int\<close>, \<open>w_string::pathCat\<close>, \<open>w_dir_open\<close> (the \<open>strerror\<close> text when it
    fails), \<open>w_watcher_init\<close> (the backend it attaches, or its error message) and
    \<open>time\<close>;
  \<^item> \<open>ignore_vcs_dirs\<close>: what \<open>apply_ignore_vcs_configuration\<close> adds to the ignore set, or
    its error message;
  \<^item> \<open>w_query_parse\<close>: the query collaborator's reading of a trigger definition, with the
    checks of the optional fields of a definition;
  \<^item> \<open>root_start_error\<close>: the error message of \<open>root_start\<close> for a path, if it fails.
\<close>

datatype file_probe = FileExists | FileENOENT | FileError string

record env =
  is_slash :: "char \<Rightarrow> bool"
  WATCHMAN_DIR_SEP :: char
  WATCHMAN_NAME_MAX :: nat
  DEFAULT_SETTLE_PERIOD :: int
  DEFAULT_GC_AGE :: int
  DEFAULT_GC_INTERVAL :: int
  DEFAULT_REAP_AGE :: int
  is_case_sensitive_filesystem :: "string \<Rightarrow> bool"
  w_path_exists :: "string \<Rightarrow> file_probe"
  json_load_file :: "string \<Rightarrow> string + json"
  cfg_get_int :: "watchman_root \<Rightarrow> string \<Rightarrow> int \<Rightarrow> int"
  pathCat :: "string list \<Rightarrow> string"
  ignore_vcs_dirs :: "watchman_root \<Rightarrow> string + string list"
  w_dir_open :: "string \<Rightarrow> string option"
  w_watcher_init :: "string \<Rightarrow> string + string"
  time_now :: int
  w_query_parse :: "watchman_root \<Rightarrow> json \<Rightarrow> string + json"
  root_start_error :: "string \<Rightarrow> string option"

text \<open>A conversion to \<open>int\<close>: the low 32 bits, signed.\<close>

definition to_int32 :: "int \<Rightarrow> int" where
  "to_int32 x = sint (word_of_int x :: 32 word)"

section \<open>Creation, teardown, destruction and reference counting (root/init.cpp)\<close>

text \<open>
  The name that \<open>load_root_config\<close> prints into \<open>cfgfilename\<close>: \<open>snprintf\<close> cuts it to the
  size of the buffer, terminator included.
\<close>

definition cfgfilename_of :: "env \<Rightarrow> string \<Rightarrow> string" where
  "cfgfilename_of e path =
     take (WATCHMAN_NAME_MAX e - 1) (path @ [WATCHMAN_DIR_SEP e] @ ''.watchmanconfig'')"

definition load_root_config ::
  "env \<Rightarrow> string \<Rightarrow> watchman_root \<Rightarrow> event list \<Rightarrow> watchman_root \<times> event list" where
  "load_root_config e path r tr =
     (let cfgfilename = cfgfilename_of e path
      in case w_path_exists e cfgfilename of
           FileENOENT \<Rightarrow> (r, tr)
         | FileError msg \<Rightarrow>
             (r, tr @ [Log W_LOG_ERR (cfgfilename @ '' is not accessible: '' @ msg)])
         | FileExists \<Rightarrow>
             (case json_load_file e cfgfilename of
                Inr j \<Rightarrow> (r\<lparr>config_file := Some j\<rparr>, tr)
              | Inl err_text \<Rightarrow>
                  (r\<lparr>config_file := None\<rparr>,
                   tr @ [Log W_LOG_ERR
                           (''failed to parse json from '' @ cfgfilename @ '': '' @ err_text)])))"

text \<open>
  Modelled from the spec: \<open>cfg_get_json\<close> is not in these sources. The spec names
  \<open>ignore_dirs\<close> among the top-level keys of the root's \<open>.watchmanconfig\<close> object, so the
  lookup is in the root's config object, and \<open>NULL\<close> when there is none.
\<close>

definition cfg_get_json :: "watchman_root \<Rightarrow> string \<Rightarrow> json option" where
  "cfg_get_json r name = json_object_get (config_file r) name"

text \<open>
  Modelled from the spec: \<open>w_ignore_addstr\<close> is not in these sources. The spec has each
  entry added to the recursive-ignore set.
\<close>

definition w_ignore_addstr :: "watchman_root \<Rightarrow> string \<Rightarrow> bool \<Rightarrow> watchman_root" where
  "w_ignore_addstr r path is_vcs_ignore = r\<lparr>ignore := ignore r @ [(path, is_vcs_ignore)]\<rparr>"

text \<open>\<open>json_to_w_string\<close>, which the loop calls on strings only.\<close>

fun json_to_w_string :: "json option \<Rightarrow> string" where
  "json_to_w_string (Some (JString s)) = s"
| "json_to_w_string _ = []"

text \<open>
  The loop of \<open>apply_ignore_configuration\<close>. Its counter \<open>i\<close> is a \<open>uint8_t\<close>; in
  \<open>i < json_array_size(ignores)\<close> it is compared as an unsigned number, and \<open>i++\<close> wraps
  from 255 to 0. \<open>None\<close> is a loop that never ends.
\<close>

partial_function (option) apply_ignore_loop ::
  "env \<Rightarrow> json option \<Rightarrow> 8 word \<Rightarrow> watchman_root \<Rightarrow> event list \<Rightarrow>
     (watchman_root \<times> event list) option" where
  "apply_ignore_loop e ignores i r tr =
     (if unat i < json_array_size ignores then
        (let jignore = json_array_get ignores (unat i) in
         if \<not> json_is_string jignore then
           apply_ignore_loop e ignores (i + 1) r
             (tr @ [Log W_LOG_ERR ''ignore_dirs must be an array of strings''])
         else
           (let name = json_to_w_string jignore;
                fullname = pathCat e [root_path r, name]
            in apply_ignore_loop e ignores (i + 1) (w_ignore_addstr r fullname False)
                 (tr @ [Log W_LOG_DBG (''ignoring '' @ fullname @ '' recursively'')])))
      else Some (r, tr))"

definition apply_ignore_configuration ::
  "env \<Rightarrow> watchman_root \<Rightarrow> event list \<Rightarrow> (watchman_root \<times> event list) option" where
  "apply_ignore_configuration e r tr =
     (let ignores = cfg_get_json r ''ignore_dirs'' in
      if ignores = None then Some (r, tr)
      else if \<not> json_is_array ignores then
        Some (r, tr @ [Log W_LOG_ERR ''ignore_dirs must be an array of strings''])
      else apply_ignore_loop e ignores 0 r tr)"

text \<open>
  \<open>Inner::Inner\<close> initialises the symlink-target queue; the other members take the values
  their declarations give them, which these sources do not show: zero and empty here.
\<close>

definition Inner_ctor :: Inner where
  "Inner_ctor = \<lparr>number = 0, view_root_dir = None, last_cmd_timestamp = 0,
     pending_symlink_targets = []\<rparr>"

text \<open>
  \<open>watchman_root::watchman_root\<close>. The members it does not name take the values of their
  declarations; the reference count starts at 1.
\<close>

definition watchman_root_ctor :: "string \<Rightarrow> watchman_root" where
  "watchman_root_ctor path =
     \<lparr>root_path = path, refcnt = 1, case_sensitive = False, config_file = None,
      trigger_settle = 0, gc_age = 0, gc_interval = 0, idle_reap_age = 0, ignore = [],
      pending = [], watcher_ops = None, inner = Inner_ctor, triggers = [],
      cancelled = False\<rparr>"

definition w_root_init :: "env \<Rightarrow> root_ptr \<Rightarrow> state \<Rightarrow> ((string + unit) \<times> state) result" where
  "w_root_init e rt s = with_root rt s (\<lambda>r.
     case w_dir_open e (root_path r) of
       Some err \<Rightarrow> Ok (Inl (''failed to opendir('' @ root_path r @ ''): '' @ err), s)
     | None \<Rightarrow>
         (case w_watcher_init e (root_path r) of
            Inl errmsg \<Rightarrow> Ok (Inl errmsg, s)
          | Inr ops \<Rightarrow>
              let r1 = r\<lparr>watcher_ops := Some ops\<rparr>;
                  r2 = r1\<lparr>inner := (inner r1)\<lparr>number := next_root_number s\<rparr>\<rparr>;
                  s1 = s\<lparr>next_root_number := next_root_number s + 1\<rparr>;
                  r3 = r2\<lparr>inner := (inner r2)\<lparr>view_root_dir := Some (root_path r2)\<rparr>\<rparr>;
                  r4 = r3\<lparr>inner := (inner r3)\<lparr>last_cmd_timestamp := time_now e\<rparr>\<rparr>
              in Ok (Inr (), put_root rt r4 s1)))"

definition w_root_teardown ::
  "root_ptr \<Rightarrow> watchman_root \<Rightarrow> event list \<Rightarrow> watchman_root \<times> event list" where
  "w_root_teardown p r tr =
     (let r1 = r\<lparr>pending := []\<rparr>;
          tr1 = tr @ [PendingCollDrain p Primary];
          r2 = r1\<lparr>inner := (inner r1)\<lparr>view_root_dir := None\<rparr>\<rparr>;
          tr2 = tr1 @ [RootDirReset p];
          tr3 = (if watcher_ops r2 \<noteq> None then tr2 @ [WatcherRootDtor p] else tr2);
          tr4 = tr3 @ [PendingCollDestroy p SymlinkTargets];
          r3 = r2\<lparr>inner := Inner_ctor\<rparr>;
          tr5 = tr4 @ [PendingCollInit p SymlinkTargets]
      in (r3, tr5))"

text \<open>
  \<open>watchman_root::~watchman_root\<close>: the body, then the destructors of the members, of
  which \<open>Inner::~Inner\<close> destroys the symlink-target queue that teardown initialised again.
\<close>

definition watchman_root_dtor :: "root_ptr \<Rightarrow> state \<Rightarrow> state result" where
  "watchman_root_dtor p s = with_root p s (\<lambda>r.
     let tr1 = trace s @ [Log W_LOG_DBG (''root: final ref on '' @ root_path r),
                          CancelSubscriptions p];
         (r2, tr2) = w_root_teardown p r tr1;
         tr3 = (if config_file r2 \<noteq> None then tr2 @ [ConfigDecref p] else tr2);
         tr4 = tr3 @ [PendingCollDestroy p Primary];
         tr5 = tr4 @ [PendingCollDestroy p SymlinkTargets]
     in Ok (s\<lparr>heap := (heap s)(p \<mapsto> r2), live_roots := live_roots s - 1, trace := tr5\<rparr>))"

text \<open>\<open>delete root\<close>: the destructor, then the storage is gone.\<close>

definition delete_root :: "root_ptr \<Rightarrow> state \<Rightarrow> state result" where
  "delete_root p s =
     rbind (watchman_root_dtor p s) (\<lambda>s'. Ok (s'\<lparr>heap := (heap s')(p := None)\<rparr>))"

definition w_root_addref :: "root_ptr \<Rightarrow> state \<Rightarrow> state result" where
  "w_root_addref rt s =
     with_root rt s (\<lambda>r. Ok (put_root rt (r\<lparr>refcnt := refcnt r + 1\<rparr>) s))"

definition w_root_delref_raw :: "root_ptr \<Rightarrow> state \<Rightarrow> state result" where
  "w_root_delref_raw rt s = with_root rt s (\<lambda>r.
     let s1 = put_root rt (r\<lparr>refcnt := refcnt r - 1\<rparr>) s
     in if refcnt r - 1 \<noteq> 0 then Ok s1 else delete_root rt s1)"

text \<open>
  \<open>w_root_delref\<close> takes a \<open>struct unlocked_watchman_root\<close>, whose only member is the root
  pointer, and clears it.
\<close>

definition w_root_delref :: "root_ptr option \<Rightarrow> state \<Rightarrow> (root_ptr option \<times> state) result" where
  "w_root_delref unlocked s =
     (case unlocked of
        None \<Rightarrow> Fault ProcessAbort
      | Some rt \<Rightarrow> rbind (w_root_delref_raw rt s) (\<lambda>s'. Ok (None, s')))"

text \<open>
  \<open>w_root_new\<close>. The new object takes the next free address. The result is the root, or
  \<open>nullptr\<close> with the error message. When \<open>apply_ignore_configuration\<close> never returns,
  neither does \<open>w_root_new\<close>.
\<close>

definition w_root_new :: "env \<Rightarrow> string \<Rightarrow> state \<Rightarrow> ((string + root_ptr) \<times> state) result" where
  "w_root_new e path s =
     (let rt = next_addr s;
          r0 = watchman_root_ctor path;
          tr0 = trace s @ [PendingCollInit rt SymlinkTargets];
          live = live_roots s + 1;
          r1 = r0\<lparr>case_sensitive := is_case_sensitive_filesystem e path\<rparr>;
          tr1 = tr0 @ [PendingCollInit rt Primary];
          (r2, tr2) = load_root_config e path r1 tr1;
          r3 = r2\<lparr>trigger_settle :=
                    to_int32 (cfg_get_int e r2 ''settle'' (DEFAULT_SETTLE_PERIOD e))\<rparr>;
          r4 = r3\<lparr>gc_age := to_int32 (cfg_get_int e r3 ''gc_age_seconds'' (DEFAULT_GC_AGE e))\<rparr>;
          r5 = r4\<lparr>gc_interval :=
                    to_int32 (cfg_get_int e r4 ''gc_interval_seconds'' (DEFAULT_GC_INTERVAL e))\<rparr>;
          r6 = r5\<lparr>idle_reap_age :=
                    to_int32 (cfg_get_int e r5 ''idle_reap_age_seconds'' (DEFAULT_REAP_AGE e))\<rparr>
      in case apply_ignore_configuration e r6 tr2 of
           None \<Rightarrow> Diverges
         | Some (r7, tr7) \<Rightarrow>
             (let s7 = s\<lparr>heap := (heap s)(rt \<mapsto> r7), next_addr := rt + 1,
                         live_roots := live, trace := tr7\<rparr>
              in case ignore_vcs_dirs e r7 of
                   Inl errmsg \<Rightarrow> rbind (w_root_delref_raw rt s7) (\<lambda>s8. Ok (Inl errmsg, s8))
                 | Inr dirs \<Rightarrow>
                     (let r8 = r7\<lparr>ignore := ignore r7 @ map (\<lambda>d. (d, True)) dirs\<rparr>;
                          s8 = put_root rt r8 s7
                      in rbind (w_root_init e rt s8) (\<lambda>(res, s9).
                           case res of
                             Inl errmsg \<Rightarrow>
                               rbind (w_root_delref_raw rt s9) (\<lambda>s10. Ok (Inl errmsg, s10))
                           | Inr u \<Rightarrow> Ok (Inr rt, s9)))))"

section \<open>The registry (root/watchlist.cpp)\<close>

definition remove_root_from_watched :: "root_ptr \<Rightarrow> state \<Rightarrow> (bool \<times> state) result" where
  "remove_root_from_watched rt s = with_root rt s (\<lambda>r.
     case map_of (watched_roots s) (root_path r) of
       None \<Rightarrow> Ok (False, s)
     | Some stored \<Rightarrow>
         if stored = rt
         then rbind (w_root_delref_raw rt
                      (s\<lparr>watched_roots := erase (root_path r) (watched_roots s)\<rparr>))
                (\<lambda>s'. Ok (True, s'))
         else Ok (False, s))"

text \<open>
  Modelled from the spec: \<open>w_string_startswith\<close> is not in these sources. The spec has a
  root enclose a file when the file path has the root's path as a prefix.
\<close>

definition w_string_startswith :: "string \<Rightarrow> string \<Rightarrow> bool" where
  "w_string_startswith str pre = (length pre \<le> length str \<and> take (length pre) str = pre)"

text \<open>
  \<open>w_find_enclosing_root\<close>. \<open>filename\<close> is a C string, given by its bytes before the
  terminator. The result is the returned \<open>prefix\<close> and the value of \<open>*relpath\<close> at the end
  (the caller's value \<open>relpath\<close> when the function does not write it). Whether \<open>malloc\<close> and
  \<open>strdup\<close> succeed is given by \<open>malloc_ok\<close> and \<open>strdup_ok\<close>. The copy of the prefix and
  the tail are taken from \<open>filename\<close> at the length of the found root's own \<open>root_path\<close>;
  beyond the end of \<open>filename\<close> that is a read out of bounds.
\<close>

definition w_find_enclosing_root ::
  "env \<Rightarrow> bool \<Rightarrow> bool \<Rightarrow> string \<Rightarrow> string option \<Rightarrow> state \<Rightarrow>
     ((string option \<times> string option) \<times> state) result" where
  "w_find_enclosing_root e malloc_ok strdup_ok filename relpath s =
     (let name = filename in
      case List.find
             (\<lambda>(root_name, rt).
                w_string_startswith name root_name \<and>
                (length name = length root_name \<or> is_slash e (name ! length root_name)))
             (watched_roots s) of
        None \<Rightarrow> Ok ((None, relpath), s)
      | Some (root_name, rt) \<Rightarrow>
          rbind (w_root_addref rt s) (\<lambda>s1.
            with_root rt s1 (\<lambda>r.
              let n = length (root_path r) in
              if \<not> malloc_ok
              then rbind (w_root_delref_raw rt s1) (\<lambda>s2. Ok ((None, relpath), s2))
              else if length filename < n then Fault OutOfBounds
              else
                (let prefix = take n filename;
                     relpath' =
                       (if n = length name then None
                        else if strdup_ok then Some (drop (n + 1) filename) else None)
                 in rbind (w_root_delref_raw rt s1) (\<lambda>s2. Ok ((Some prefix, relpath'), s2))))))"

subsection \<open>Saving the state\<close>

definition w_root_trigger_list_to_json :: "watchman_root \<Rightarrow> json" where
  "w_root_trigger_list_to_json r =
     foldl (\<lambda>arr (name, cmd). json_array_append arr (definition_json cmd)) (JArray [])
       (triggers r)"

text \<open>The loop of \<open>w_root_save_state\<close> over the registry, with \<open>watched_dirs\<close> so far.\<close>

fun save_watched :: "(string \<times> root_ptr) list \<Rightarrow> state \<Rightarrow> json \<Rightarrow> json result" where
  "save_watched [] s watched_dirs = Ok watched_dirs"
| "save_watched ((root_name, rt) # rest) s watched_dirs = with_root rt s (\<lambda>r.
     let obj = JObject [];
         obj1 = json_object_set_new obj ''path'' (JString (root_path r));
         trigs = w_root_trigger_list_to_json r;
         obj2 = json_object_set_new obj1 ''triggers'' trigs
     in save_watched rest s (json_array_append watched_dirs obj2))"

text \<open>\<open>w_root_save_state\<close>: the result and the document \<open>state\<close> after the call.\<close>

definition w_root_save_state :: "json \<Rightarrow> state \<Rightarrow> ((bool \<times> json) \<times> state) result" where
  "w_root_save_state doc s =
     (let s1 = emit (Log W_LOG_DBG ''saving state'') s
      in rbind (save_watched (watched_roots s1) s1 (JArray [])) (\<lambda>watched_dirs.
           Ok ((True, json_object_set_new doc ''watched'' watched_dirs), s1)))"

subsection \<open>Resolving, cancelling, starting a root and building a trigger\<close>

text \<open>
  Modelled from the spec: \<open>w_root_cancel\<close> is not in these sources. The spec: idempotent;
  returns whether this call performed the cancellation; the cancellation drains the primary
  queue, destroys the view's root directory, detaches the watcher through its hook, then
  destructs and reconstructs Inner in place, which is \<open>w_root_teardown\<close>.
\<close>

definition w_root_cancel :: "root_ptr \<Rightarrow> state \<Rightarrow> (bool \<times> state) result" where
  "w_root_cancel rt s = with_root rt s (\<lambda>r.
     if cancelled r then Ok (False, s)
     else
       (let (r1, tr1) = w_root_teardown rt r (trace s)
        in Ok (True, (put_root rt (r1\<lparr>cancelled := True\<rparr>) s)\<lparr>trace := tr1\<rparr>)))"

text \<open>
  Modelled from the spec: \<open>root_start\<close> is not in these sources. The spec: it attaches
  watcher processing to a newly created root, and it can fail. The result is the error
  message of a failure.
\<close>

definition root_start :: "env \<Rightarrow> root_ptr \<Rightarrow> state \<Rightarrow> (string option \<times> state) result" where
  "root_start e rt s = with_root rt s (\<lambda>r.
     case root_start_error e (root_path r) of
       Some errmsg \<Rightarrow> Ok (Some errmsg, s)
     | None \<Rightarrow> Ok (None, emit (RootStart rt) s))"

text \<open>
  Modelled from the spec: \<open>root_resolve\<close> is not in these sources. The spec: it resolves, or
  creates if not already present, a root for the given path; a lookup is an exact match
  and increments the found root's reference count before returning; the registry holds one
  counted reference per entry, and each resolved or created root is handed over with a
  borrowed reference. The path is taken as it is given. The spec does not say what
  resolving without a path does: it fails here. The new entry goes to the end of the
  registry list, which is one of the orders in which the registry may iterate afterwards.
\<close>

definition root_resolve ::
  "env \<Rightarrow> string option \<Rightarrow> bool \<Rightarrow> state \<Rightarrow>
     ((string + root_ptr \<times> bool) \<times> state) result" where
  "root_resolve e filename auto_watch s =
     (case filename of
        None \<Rightarrow> Ok (Inl ''no path to resolve'', s)
      | Some path \<Rightarrow>
          (case map_of (watched_roots s) path of
             Some rt \<Rightarrow> rbind (w_root_addref rt s) (\<lambda>s1. Ok (Inr (rt, False), s1))
           | None \<Rightarrow>
               if \<not> auto_watch then Ok (Inl (''directory '' @ path @ '' is not watched''), s)
               else rbind (w_root_new e path s) (\<lambda>(res, s1).
                 case res of
                   Inl errmsg \<Rightarrow> Ok (Inl errmsg, s1)
                 | Inr rt \<Rightarrow>
                     rbind (w_root_addref rt
                              (s1\<lparr>watched_roots := watched_roots s1 @ [(path, rt)]\<rparr>))
                       (\<lambda>s2. Ok (Inr (rt, True), s2)))))"

text \<open>
  Modelled from the spec: \<open>w_build_trigger_from_def\<close> is declared in watchman_trigger.h and
  defined outside these sources. The spec: it validates the required fields (name, query,
  command vector) and the optional ones, fails with a descriptive error if a required field
  is missing or malformed, and keeps the full JSON definition verbatim. The name is the
  string under \<open>name\<close>, the command vector the array under \<open>command\<close>; the query and the
  optional fields are read by \<open>w_query_parse\<close>.
\<close>

definition w_build_trigger_from_def ::
  "env \<Rightarrow> watchman_root \<Rightarrow> json \<Rightarrow> string + watchman_trigger_command" where
  "w_build_trigger_from_def e r trig =
     (case w_query_parse e r trig of
        Inl errmsg \<Rightarrow> Inl errmsg
      | Inr q \<Rightarrow>
          (case json_string_value (json_object_get (Some trig) ''name'') of
             None \<Rightarrow> Inl ''invalid or missing name''
           | Some name \<Rightarrow>
               (case json_object_get (Some trig) ''command'' of
                  Some (JArray argv) \<Rightarrow>
                    Inr \<lparr>triggername = name, query = q, definition_json = trig,
                         command = JArray argv, stdin_style = input_dev_null,
                         current_proc = 0\<rparr>
                | _ \<Rightarrow> Inl ''invalid command array'')))"

subsection \<open>Loading the state\<close>

text \<open>
  The loop of \<open>w_root_load_state\<close> over one entry's trigger definitions, on the root's
  trigger map and the trace. The map is an \<open>unordered_map\<close>: \<open>AList.update\<close> replaces the
  trigger of a name that is there and puts a new name at the end of the list, which is one
  of the orders in which the map may iterate afterwards.
\<close>

fun load_triggers ::
  "env \<Rightarrow> watchman_root \<Rightarrow> json list \<Rightarrow>
     (string \<times> watchman_trigger_command) list \<times> event list \<Rightarrow>
     (string \<times> watchman_trigger_command) list \<times> event list" where
  "load_triggers e r [] (m, tr) = (m, tr)"
| "load_triggers e r (tobj # rest) (m, tr) =
     (let rarray = json_object_get (Some tobj) ''rules'' in
      if rarray \<noteq> None then load_triggers e r rest (m, tr)
      else
        (case w_build_trigger_from_def e r tobj of
           Inl errmsg \<Rightarrow>
             load_triggers e r rest
               (m, tr @ [Log W_LOG_ERR (''loading trigger for '' @ root_path r @ '': '' @ errmsg)])
         | Inr cmd \<Rightarrow> load_triggers e r rest (AList.update (triggername cmd) cmd m, tr)))"

text \<open>The body of the loop of \<open>w_root_load_state\<close> over the watched entries.\<close>

definition load_watched_entry :: "env \<Rightarrow> json \<Rightarrow> state \<Rightarrow> state result" where
  "load_watched_entry e obj s =
     (let trigs = json_object_get (Some obj) ''triggers'';
          filename = json_string_value (json_object_get (Some obj) ''path'')
      in rbind (root_resolve e filename True s) (\<lambda>(res, s1).
           case res of
             Inl errmsg \<Rightarrow> Ok s1
           | Inr (rt, created) \<Rightarrow>
               with_root rt s1 (\<lambda>r.
                 let (m, tr) = load_triggers e r (json_array_elems trigs) (triggers r, trace s1);
                     s2 = (put_root rt (r\<lparr>triggers := m\<rparr>) s1)\<lparr>trace := tr\<rparr>
                 in rbind
                      (if created then
                         rbind (root_start e rt s2) (\<lambda>(err, s3).
                           case err of
                             None \<Rightarrow> Ok s3
                           | Some errmsg \<Rightarrow>
                               rbind (w_root_cancel rt
                                        (emit (Log W_LOG_ERR
                                                 (''root_start('' @ root_path r @ '') failed: '' @ errmsg))
                                           s3))
                                 (\<lambda>(won, s4). Ok s4))
                       else Ok s2)
                      (\<lambda>s5. rbind (w_root_delref (Some rt) s5) (\<lambda>(unlocked, s6). Ok s6)))))"

fun load_watched :: "env \<Rightarrow> json list \<Rightarrow> state \<Rightarrow> state result" where
  "load_watched e [] s = Ok s"
| "load_watched e (obj # rest) s = rbind (load_watched_entry e obj s) (load_watched e rest)"

definition w_root_load_state :: "env \<Rightarrow> json \<Rightarrow> state \<Rightarrow> (bool \<times> state) result" where
  "w_root_load_state e doc s =
     (let watched = json_object_get (Some doc) ''watched'' in
      if watched = None then Ok (True, s)
      else if \<not> json_is_array watched then Ok (False, s)
      else rbind (load_watched e (json_array_elems watched) s) (\<lambda>s'. Ok (True, s')))"

subsection \<open>Waiting for the roots to go away\<close>

text \<open>
  While \<open>w_root_free_watched_roots\<close> polls, other threads change \<open>live_roots\<close> and the
  clock moves. What the function reads is given from outside: \<open>live_roots_load k\<close> is the
  value of the \<open>k\<close>-th read of \<open>live_roots\<close> and \<open>time_call k\<close> the value of the \<open>k\<close>-th call
  of \<open>time\<close>, both counted from 0. Read 0 is \<open>last = live_roots\<close> and call 0 is
  \<open>time(&started)\<close>; the \<open>k\<close>-th round of the loop makes read \<open>k\<close> and, when it gets that
  far, call \<open>k\<close>.
\<close>

record poll_env =
  live_roots_load :: "nat \<Rightarrow> int"
  time_call :: "nat \<Rightarrow> int"

text \<open>The \<open>for (;;)\<close> loop, from round \<open>k\<close> on. \<open>None\<close> is a loop that never ends.\<close>

partial_function (option) poll_live_roots ::
  "poll_env \<Rightarrow> int \<Rightarrow> nat \<Rightarrow> int \<Rightarrow> int \<Rightarrow> event list \<Rightarrow> event list option" where
  "poll_live_roots pe started k last_live interval tr =
     (let current = live_roots_load pe k in
      if current = 0 then Some tr
      else if time_call pe k > started + 3 then
        Some (tr @ [LogNum W_LOG_ERR ''%ld roots were still live at exit'' current])
      else
        (let tr1 = (if current \<noteq> last_live
                    then tr @ [LogNum W_LOG_DBG ''waiting: %ld live'' current] else tr);
             last_live1 = (if current \<noteq> last_live then to_int32 current else last_live);
             tr2 = tr1 @ [Usleep interval]
         in poll_live_roots pe started (k + 1) last_live1 (min (interval * 2) 1000000) tr2))"

text \<open>
  The loop of \<open>w_root_free_watched_roots\<close> over the registry: a root that this call did
  not cancel has its threads signalled.
\<close>

fun cancel_watched :: "(string \<times> root_ptr) list \<Rightarrow> state \<Rightarrow> state result" where
  "cancel_watched [] s = Ok s"
| "cancel_watched ((root_name, rt) # rest) s =
     rbind (w_root_cancel rt s) (\<lambda>(won, s1).
       cancel_watched rest (if \<not> won then emit (SignalRootThreads rt) s1 else s1))"

definition w_root_free_watched_roots :: "poll_env \<Rightarrow> state \<Rightarrow> state result" where
  "w_root_free_watched_roots pe s =
     rbind (cancel_watched (watched_roots s) (emit ReapChildren s)) (\<lambda>s1.
       let last_live = to_int32 (live_roots_load pe 0);
           started = time_call pe 0;
           tr1 = trace s1 @
                   [LogNum W_LOG_DBG ''waiting for roots to cancel and go away %d'' last_live];
           interval = 100
       in case poll_live_roots pe started 1 last_live interval tr1 of
            None \<Rightarrow> Diverges
          | Some tr2 \<Rightarrow> Ok (s1\<lparr>trace := tr2 @ [Log W_LOG_DBG ''all roots are gone'']\<rparr>))"

section \<open>Notions the properties are stated with\<close>

subsection \<open>Sequences of reference-count calls\<close>

datatype ref_op = AddRef | DelRefRaw

fun apply_ref_op :: "root_ptr \<Rightarrow> ref_op \<Rightarrow> state \<Rightarrow> state result" where
  "apply_ref_op p AddRef s = w_root_addref p s"
| "apply_ref_op p DelRefRaw s = w_root_delref_raw p s"

fun run_ref_ops :: "root_ptr \<Rightarrow> ref_op list \<Rightarrow> state \<Rightarrow> state result" where
  "run_ref_ops p [] s = Ok s"
| "run_ref_ops p (x # xs) s = rbind (apply_ref_op p x s) (run_ref_ops p xs)"

text \<open>The number of references held after a sequence of calls, from \<open>c\<close> held before.\<close>

fun refs_after :: "int \<Rightarrow> ref_op list \<Rightarrow> int" where
  "refs_after c [] = c"
| "refs_after c (AddRef # xs) = refs_after (c + 1) xs"
| "refs_after c (DelRefRaw # xs) = refs_after (c - 1) xs"

text \<open>
  A sequence on a root created with one reference is balanced when it releases every
  reference, the first one included, and never releases one that is not held: the count is
  positive before the end, and zero at the end.
\<close>

definition balanced :: "ref_op list \<Rightarrow> bool" where
  "balanced ops = (refs_after 1 ops = 0 \<and> (\<forall>n < length ops. 0 < refs_after 1 (take n ops)))"

text \<open>
  How often the destructor has run for the object at \<open>p\<close>: its call of
  \<open>w_cancel_subscriptions_for_root(this)\<close> is in the trace once per run.
\<close>

definition destructions :: "root_ptr \<Rightarrow> state \<Rightarrow> nat" where
  "destructions p s = count_list (trace s) (CancelSubscriptions p)"

text \<open>What the destructor of the root \<open>r\<close> at \<open>p\<close> adds to the trace.\<close>

definition dtor_events :: "root_ptr \<Rightarrow> watchman_root \<Rightarrow> event list" where
  "dtor_events p r =
     [Log W_LOG_DBG (''root: final ref on '' @ root_path r), CancelSubscriptions p,
      PendingCollDrain p Primary, RootDirReset p] @
     (if watcher_ops r \<noteq> None then [WatcherRootDtor p] else []) @
     [PendingCollDestroy p SymlinkTargets, PendingCollInit p SymlinkTargets] @
     (if config_file r \<noteq> None then [ConfigDecref p] else []) @
     [PendingCollDestroy p Primary, PendingCollDestroy p SymlinkTargets]"

subsection \<open>What a visit of the ignore loop does with an entry\<close>

text \<open>
  The additions to the ignore set for the string entries of \<open>ignore_dirs\<close>, in order, and
  the one log line that each entry gets.
\<close>

fun ignore_additions :: "env \<Rightarrow> string \<Rightarrow> json list \<Rightarrow> (string \<times> bool) list" where
  "ignore_additions e path [] = []"
| "ignore_additions e path (JString name # xs) =
     (pathCat e [path, name], False) # ignore_additions e path xs"
| "ignore_additions e path (x # xs) = ignore_additions e path xs"

fun ignore_log :: "env \<Rightarrow> string \<Rightarrow> json \<Rightarrow> event" where
  "ignore_log e path (JString name) =
     Log W_LOG_DBG (''ignoring '' @ pathCat e [path, name] @ '' recursively'')"
| "ignore_log e path x = Log W_LOG_ERR ''ignore_dirs must be an array of strings''"

subsection \<open>Order in a trace\<close>

text \<open>
  \<open>before x y tr\<close>: \<open>x\<close> happens in \<open>tr\<close>, and \<open>y\<close> does not happen until the last \<open>x\<close> has
  happened.
\<close>

fun before :: "'a \<Rightarrow> 'a \<Rightarrow> 'a list \<Rightarrow> bool" where
  "before x y [] = False"
| "before x y (e # es) = (e \<noteq> y \<and> (if x \<in> set es then before x y es else e = x))"

subsection \<open>Examples\<close>

definition example_root :: "string \<Rightarrow> watchman_root" where
  "example_root path = \<lparr>root_path = path, refcnt = 1, case_sensitive = True,
     config_file = None, trigger_settle = 20, gc_age = 43200, gc_interval = 86400,
     idle_reap_age = 432000, ignore = [], pending = [], watcher_ops = Some ''inotify'',
     inner = Inner_ctor, triggers = [], cancelled = False\<rparr>"

text \<open>
  Two root objects for the same path: the one at address 1 is registered, the one at
  address 0 is a stale object that a caller still holds.
\<close>

definition example_state :: state where
  "example_state = \<lparr>heap = [0 \<mapsto> example_root ''/a/b'', 1 \<mapsto> example_root ''/a/b''],
     next_addr = 2, watched_roots = [(''/a/b'', 1)], live_roots = 2, next_root_number = 3,
     trace = []\<rparr>"

text \<open>
  An environment: POSIX paths, no \<open>.watchmanconfig\<close> anywhere but in \<open>/cfg\<close>, where
  \<open>ignore_dirs\<close> is \<open>[1, "a"]\<close>; every directory opens and every watcher attaches; every
  trigger definition has a query; \<open>root_start\<close> fails for \<open>/bad\<close> only.
\<close>

definition example_env :: env where
  "example_env = \<lparr>
     is_slash = (\<lambda>c. c = CHR ''/''),
     WATCHMAN_DIR_SEP = CHR ''/'',
     WATCHMAN_NAME_MAX = 4096,
     DEFAULT_SETTLE_PERIOD = 20,
     DEFAULT_GC_AGE = 43200,
     DEFAULT_GC_INTERVAL = 86400,
     DEFAULT_REAP_AGE = 432000,
     is_case_sensitive_filesystem = (\<lambda>path. True),
     w_path_exists = (\<lambda>f. if f = ''/cfg/.watchmanconfig'' then FileExists else FileENOENT),
     json_load_file =
       (\<lambda>f. Inr (JObject [(''ignore_dirs'', JArray [JInt 1, JString ''a''])])),
     cfg_get_int = (\<lambda>r name defval. defval),
     pathCat = (\<lambda>parts. case parts of [a, b] \<Rightarrow> a @ ''/'' @ b | _ \<Rightarrow> concat parts),
     ignore_vcs_dirs = (\<lambda>r. Inr []),
     w_dir_open = (\<lambda>path. None),
     w_watcher_init = (\<lambda>path. Inr ''inotify''),
     time_now = 1700000000,
     w_query_parse = (\<lambda>r trig. Inr (JArray [JString ''true''])),
     root_start_error = (\<lambda>path. if path = ''/bad'' then Some ''no watcher'' else None)\<rparr>"

text \<open>
  The same environment with VCS ignores that depend on the root: its own \<open>.git\<close>.
\<close>

definition vcs_env :: env where
  "vcs_env = example_env\<lparr>ignore_vcs_dirs := (\<lambda>r. Inr [root_path r @ ''/.git''])\<rparr>"

text \<open>The root as \<open>w_root_new\<close> has it when it calls \<open>apply_ignore_configuration\<close>.\<close>

definition configured_root :: "env \<Rightarrow> string \<Rightarrow> json option \<Rightarrow> watchman_root" where
  "configured_root e path cfg =
     (let r1 = (watchman_root_ctor path)\<lparr>case_sensitive := is_case_sensitive_filesystem e path,
                 config_file := cfg\<rparr>;
          r3 = r1\<lparr>trigger_settle :=
                    to_int32 (cfg_get_int e r1 ''settle'' (DEFAULT_SETTLE_PERIOD e))\<rparr>;
          r4 = r3\<lparr>gc_age := to_int32 (cfg_get_int e r3 ''gc_age_seconds'' (DEFAULT_GC_AGE e))\<rparr>;
          r5 = r4\<lparr>gc_interval :=
                    to_int32 (cfg_get_int e r4 ''gc_interval_seconds'' (DEFAULT_GC_INTERVAL e))\<rparr>
      in r5\<lparr>idle_reap_age :=
                to_int32 (cfg_get_int e r5 ''idle_reap_age_seconds'' (DEFAULT_REAP_AGE e))\<rparr>)"

text \<open>The environment \<open>e\<close> with a \<open>.watchmanconfig\<close> whose \<open>ignore_dirs\<close> is \<open>v\<close>.\<close>

definition with_ignore_dirs :: "json \<Rightarrow> env \<Rightarrow> env" where
  "with_ignore_dirs v e = e\<lparr>json_load_file := (\<lambda>f. Inr (JObject [(''ignore_dirs'', v)]))\<rparr>"

text \<open>The root \<open>/r\<close> with a config object whose \<open>ignore_dirs\<close> is \<open>v\<close>.\<close>

definition ignore_dirs_root :: "json \<Rightarrow> watchman_root" where
  "ignore_dirs_root v = (example_root ''/r'')\<lparr>config_file := Some (JObject [(''ignore_dirs'', v)])\<rparr>"

subsection \<open>Enclosing roots\<close>

text \<open>
  The root path \<open>r\<close> is a path-component-aligned prefix of the file path \<open>f\<close>: \<open>f\<close> is \<open>r\<close>,
  or \<open>f\<close> goes on after \<open>r\<close> with a path separator.
\<close>

definition aligned_prefix :: "env \<Rightarrow> string \<Rightarrow> string \<Rightarrow> bool" where
  "aligned_prefix e r f = (f = r \<or> (\<exists>c rest. f = r @ c # rest \<and> is_slash e c))"

text \<open>
  Every registry entry points to a live root object, stored under that root's own path,
  and the registry's reference to it is counted.
\<close>

definition registry_ok :: "state \<Rightarrow> bool" where
  "registry_ok s =
     list_all (\<lambda>(root_name, rt).
                 case heap s rt of
                   None \<Rightarrow> False
                 | Some r \<Rightarrow> root_path r = root_name \<and> 0 < refcnt r)
       (watched_roots s)"

subsection \<open>States and environments of a load\<close>

text \<open>
  The addresses from \<open>next_addr\<close> on are free: no root object is stored there.
\<close>

definition fresh_addrs :: "state \<Rightarrow> bool" where
  "fresh_addrs s = (\<forall>p. next_addr s \<le> p \<longrightarrow> heap s p = None)"

text \<open>
  No config file that the environment serves has more than 255 entries under
  \<open>ignore_dirs\<close>.
\<close>

definition small_ignore_dirs :: "env \<Rightarrow> bool" where
  "small_ignore_dirs e =
     (\<forall>f cfg. json_load_file e f = Inr cfg \<longrightarrow>
        json_array_size (json_object_get (Some cfg) ''ignore_dirs'') \<le> 255)"

subsection \<open>Saved documents\<close>

text \<open>
  The trigger definition \<open>{"name":"t","command":["echo","hi"]}\<close>, a process with nothing
  watched, a trigger built from the definition and a process that watches \<open>/r\<close> with this
  one trigger, a definition in the legacy format, a definition without a name, and an entry
  of the \<open>watched\<close> array of a saved document.
\<close>

definition trigger_def_ex :: json where
  "trigger_def_ex =
     JObject [(''name'', JString ''t''), (''command'', JArray [JString ''echo'', JString ''hi''])]"

definition empty_state :: state where
  "empty_state = \<lparr>heap = Map.empty, next_addr = 0, watched_roots = [], live_roots = 0,
     next_root_number = 1, trace = []\<rparr>"

definition example_trigger :: watchman_trigger_command where
  "example_trigger = \<lparr>triggername = ''t'', query = JArray [JString ''true''],
     definition_json = trigger_def_ex, command = JArray [JString ''echo'', JString ''hi''],
     stdin_style = input_dev_null, current_proc = 0\<rparr>"

definition saved_state :: state where
  "saved_state = \<lparr>heap = [0 \<mapsto> (example_root ''/r'')\<lparr>triggers := [(''t'', example_trigger)]\<rparr>],
     next_addr = 1, watched_roots = [(''/r'', 0)], live_roots = 1, next_root_number = 2,
     trace = []\<rparr>"

definition legacy_def_ex :: json where
  "legacy_def_ex = JObject [(''name'', JString ''old''), (''rules'', JArray [])]"

definition nameless_def_ex :: json where
  "nameless_def_ex = JObject [(''command'', JArray [JString ''true''])]"

definition watched_entry :: "string \<Rightarrow> json list \<Rightarrow> json" where
  "watched_entry path defs = JObject [(''path'', JString path), (''triggers'', JArray defs)]"

subsection \<open>The shutdown poll\<close>

text \<open>The \<open>j\<close>-th sleep of a backoff that starts at 100 microseconds, doubles, and is capped at
  one second.\<close>

definition backoff :: "nat \<Rightarrow> int" where
  "backoff j = min (100 * 2 ^ j) 1000000"

text \<open>Round \<open>k\<close> of the loop leaves it: no root is live, or the clock reads more than three
  seconds after \<open>started\<close>.\<close>

definition poll_exits :: "poll_env \<Rightarrow> int \<Rightarrow> nat \<Rightarrow> bool" where
  "poll_exits pe started k = (live_roots_load pe k = 0 \<or> started + 3 < time_call pe k)"

text \<open>The sleeps of a trace, in order, and the error lines of a trace.\<close>

fun sleeps :: "event list \<Rightarrow> int list" where
  "sleeps [] = []"
| "sleeps (Usleep i # es) = i # sleeps es"
| "sleeps (e # es) = sleeps es"

fun is_error :: "event \<Rightarrow> bool" where
  "is_error (Log W_LOG_ERR msg) = True"
| "is_error (LogNum W_LOG_ERR msg n) = True"
| "is_error e = False"

text \<open>
  The clock does not run behind the sleeps: when round \<open>k + 1\<close> reads it, after the first
  \<open>k\<close> sleeps of the backoff, it has advanced by at least their sum (in whole seconds) since
  \<open>time(&started)\<close>.
\<close>

definition sleeping_clock :: "poll_env \<Rightarrow> bool" where
  "sleeping_clock pe =
     (\<forall>k. time_call pe 0 + (\<Sum>j<k. backoff j) div 1000000 \<le> time_call pe (Suc k))"

text \<open>
  A stuck worker: two roots stay live for ever, and the clock advances by exactly the
  sleeps, from second 1000.
\<close>

definition stuck_poll_env :: poll_env where
  "stuck_poll_env = \<lparr>live_roots_load = (\<lambda>k. 2),
     time_call = (\<lambda>k. 1000 + (\<Sum>j<k - 1. backoff j) div 1000000)\<rparr>"

section \<open>Basic facts\<close>

lemma with_root_Some [simp]: "heap s p = Some r \<Longrightarrow> with_root p s f = f r"
  by (simp add: with_root_def)

lemma with_root_None [simp]: "heap s p = None \<Longrightarrow> with_root p s f = Fault UseAfterFree"
  by (simp add: with_root_def)

lemma run_ref_ops_append:
  "run_ref_ops p (xs @ ys) s = rbind (run_ref_ops p xs s) (run_ref_ops p ys)"
proof (induction xs arbitrary: s)
  case Nil
  show ?case by simp
next
  case (Cons x xs)
  show ?case
    by (cases "apply_ref_op p x s") (simp_all add: Cons.IH)
qed

lemma refs_after_append: "refs_after c (xs @ ys) = refs_after (refs_after c xs) ys"
  by (induction c xs rule: refs_after.induct) simp_all

lemma run_ref_ops_alive:
  assumes "heap s p = Some r"
    and "\<forall>n \<le> length ops. 0 < refs_after (refcnt r) (take n ops)"
  shows "run_ref_ops p ops s = Ok (put_root p (r\<lparr>refcnt := refs_after (refcnt r) ops\<rparr>) s)"
  using assms
proof (induction ops arbitrary: s r)
  case Nil
  then show ?case by (simp add: put_root_def fun_upd_idem)
next
  case (Cons x xs)
  have pos: "0 < refs_after (refcnt r) [x]"
    using Cons.prems(2) [rule_format, of 1] by simp
  have rest: "\<forall>n \<le> length xs. 0 < refs_after (refs_after (refcnt r) [x]) (take n xs)"
  proof (intro allI impI)
    fix n assume "n \<le> length xs"
    then have "0 < refs_after (refcnt r) (take (Suc n) (x # xs))"
      using Cons.prems(2) [rule_format, of "Suc n"] by simp
    then show "0 < refs_after (refs_after (refcnt r) [x]) (take n xs)"
      using refs_after_append [of "refcnt r" "[x]" "take n xs"] by simp
  qed
  define r' where "r' = r\<lparr>refcnt := refs_after (refcnt r) [x]\<rparr>"
  have step: "apply_ref_op p x s = Ok (put_root p r' s)"
    using Cons.prems(1) pos
    by (cases x) (simp_all add: r'_def w_root_addref_def w_root_delref_raw_def Let_def)
  have heap': "heap (put_root p r' s) p = Some r'"
    by (simp add: put_root_def)
  have "run_ref_ops p xs (put_root p r' s) =
      Ok (put_root p (r'\<lparr>refcnt := refs_after (refcnt r') xs\<rparr>) (put_root p r' s))"
    using Cons.IH [OF heap'] rest by (simp add: r'_def)
  moreover have "refs_after (refcnt r') xs = refs_after (refcnt r) (x # xs)"
    using refs_after_append [of "refcnt r" "[x]" xs] by (simp add: r'_def)
  ultimately show ?case
    using step by (simp add: put_root_def r'_def)
qed

lemma w_root_teardown_trace:
  "snd (w_root_teardown p r tr) =
     tr @ [PendingCollDrain p Primary, RootDirReset p] @
       (if watcher_ops r \<noteq> None then [WatcherRootDtor p] else []) @
       [PendingCollDestroy p SymlinkTargets, PendingCollInit p SymlinkTargets]"
  by (simp add: w_root_teardown_def Let_def)

lemma w_root_teardown_root:
  "fst (w_root_teardown p r tr) =
     r\<lparr>pending := [], inner := Inner_ctor\<rparr>"
  by (simp add: w_root_teardown_def Let_def)

lemma watchman_root_dtor_Ok:
  assumes "heap s p = Some r"
  shows "watchman_root_dtor p s =
    Ok (s\<lparr>heap := (heap s)(p \<mapsto> r\<lparr>pending := [], inner := Inner_ctor\<rparr>),
          live_roots := live_roots s - 1,
          trace := trace s @ dtor_events p r\<rparr>)"
  using assms
  by (simp add: watchman_root_dtor_def dtor_events_def split_beta
      w_root_teardown_trace w_root_teardown_root Let_def)

lemma delete_root_Ok:
  assumes "heap s p = Some r"
  shows "delete_root p s =
    Ok (s\<lparr>heap := (heap s)(p := None),
          live_roots := live_roots s - 1,
          trace := trace s @ dtor_events p r\<rparr>)"
  using assms by (simp add: delete_root_def watchman_root_dtor_Ok)

lemma count_dtor_events [simp]:
  "count_list (dtor_events p r) (CancelSubscriptions p) = 1"
  by (simp add: dtor_events_def)

lemma w_root_delref_raw_last:
  assumes "heap s p = Some r" and "refcnt r = 1"
  shows "w_root_delref_raw p s =
    Ok (s\<lparr>heap := (heap s)(p := None),
          live_roots := live_roots s - 1,
          trace := trace s @ dtor_events p (r\<lparr>refcnt := 0\<rparr>)\<rparr>)"
proof -
  have "heap (put_root p (r\<lparr>refcnt := 0\<rparr>) s) p = Some (r\<lparr>refcnt := 0\<rparr>)"
    by (simp add: put_root_def)
  from delete_root_Ok [OF this] show ?thesis
    using assms by (simp add: w_root_delref_raw_def Let_def put_root_def)
qed

lemma w_root_delref_raw_more:
  assumes "heap s p = Some r" and "refcnt r \<noteq> 1"
  shows "w_root_delref_raw p s = Ok (put_root p (r\<lparr>refcnt := refcnt r - 1\<rparr>) s)"
  using assms by (simp add: w_root_delref_raw_def Let_def)

lemma map_of_erase:
  "distinct (map fst kvs) \<Longrightarrow> map_of (erase k kvs) = (map_of kvs)(k := None)"
proof (induction kvs)
  case Nil
  show ?case by simp
next
  case (Cons kv kvs)
  obtain k' v where kv: "kv = (k', v)" by (cases kv)
  show ?case
  proof (cases "k' = k")
    case True
    with Cons.prems kv have "k \<notin> fst ` set kvs" by simp
    then have "map_of kvs k = None" by (simp add: map_of_eq_None_iff)
    with True kv show ?thesis by (auto simp: fun_eq_iff)
  next
    case False
    with Cons kv show ?thesis by (auto simp: fun_eq_iff)
  qed
qed

section \<open>Reference counting and destruction\<close>

text \<open>
  C3. A root is created with reference count 1. For every balanced sequence of
  \<open>w_root_addref\<close> and \<open>w_root_delref_raw\<close> calls on it, the whole sequence runs without a
  fault and the root is destructed exactly once: the destructor has run once more than
  before, the object is gone and \<open>live_roots\<close> is one less. It is the last release that
  does it: after every shorter part of the sequence the object is still there, the
  destructor has not run and \<open>live_roots\<close> is unchanged.
\<close>

theorem refcount_conservation:
  assumes alive: "heap s p = Some r" and one: "refcnt r = 1" and bal: "balanced ops"
  shows "(\<exists>s'. run_ref_ops p ops s = Ok s' \<and> heap s' p = None \<and>
            live_roots s' = live_roots s - 1 \<and>
            destructions p s' = destructions p s + 1) \<and>
         (\<forall>n < length ops. \<exists>s''. run_ref_ops p (take n ops) s = Ok s'' \<and>
            heap s'' p \<noteq> None \<and> live_roots s'' = live_roots s \<and>
            destructions p s'' = destructions p s)"
proof
  have zero: "refs_after 1 ops = 0"
    and pos: "\<And>n. n < length ops \<Longrightarrow> 0 < refs_after 1 (take n ops)"
    using bal by (simp_all add: balanced_def)
  have prefix: "run_ref_ops p (take n ops) s =
      Ok (put_root p (r\<lparr>refcnt := refs_after 1 (take n ops)\<rparr>) s)"
    if "n < length ops" for n
  proof -
    have "\<forall>m \<le> length (take n ops). 0 < refs_after (refcnt r) (take m (take n ops))"
    proof (intro allI impI)
      fix m assume "m \<le> length (take n ops)"
      then have "m \<le> n" "m < length ops" using that by simp_all
      then show "0 < refs_after (refcnt r) (take m (take n ops))"
        using pos [of m] one by (simp add: min_absorb1)
    qed
    from run_ref_ops_alive [OF alive this] show ?thesis by (simp add: one)
  qed
  from zero have nonempty: "ops \<noteq> []" by auto
  define pre where "pre = butlast ops"
  have split: "ops = pre @ [last ops]"
    using nonempty by (simp add: pre_def)
  have pre_take: "pre = take (length ops - 1) ops"
    by (simp add: pre_def butlast_conv_take)
  have len: "length ops - 1 < length ops"
    using nonempty by simp
  define c where "c = refs_after 1 pre"
  have cpos: "0 < c"
    using pos [OF len] by (simp add: c_def pre_take)
  have "refs_after c [last ops] = 0"
    using zero split refs_after_append [of 1 pre "[last ops]"] by (simp add: c_def)
  then have lastop: "last ops = DelRefRaw" and c1: "c = 1"
    using cpos by (cases "last ops"; simp)+
  define s1 where "s1 = put_root p (r\<lparr>refcnt := 1\<rparr>) s"
  have run_pre: "run_ref_ops p pre s = Ok s1"
    using prefix [OF len] c1 unfolding pre_take [symmetric] c_def s1_def by simp
  have h1: "heap s1 p = Some (r\<lparr>refcnt := 1\<rparr>)"
    by (simp add: s1_def put_root_def)
  have "run_ref_ops p ops s = w_root_delref_raw p s1"
    using run_ref_ops_append [of p pre "[last ops]" s] split run_pre lastop
    by (cases "w_root_delref_raw p s1") simp_all
  also have "\<dots> = Ok (s1\<lparr>heap := (heap s1)(p := None), live_roots := live_roots s1 - 1,
      trace := trace s1 @ dtor_events p (r\<lparr>refcnt := 0\<rparr>)\<rparr>)"
    using w_root_delref_raw_last [OF h1] by simp
  finally show "\<exists>s'. run_ref_ops p ops s = Ok s' \<and> heap s' p = None \<and>
            live_roots s' = live_roots s - 1 \<and>
            destructions p s' = destructions p s + 1"
    by (simp add: destructions_def s1_def put_root_def)
  show "\<forall>n < length ops. \<exists>s''. run_ref_ops p (take n ops) s = Ok s'' \<and>
            heap s'' p \<noteq> None \<and> live_roots s'' = live_roots s \<and>
            destructions p s'' = destructions p s"
    using prefix by (simp add: destructions_def put_root_def)
qed

theorem refcount_conservation_witness:
  "\<exists>s'. run_ref_ops 0 [AddRef, AddRef, DelRefRaw, DelRefRaw, DelRefRaw] example_state = Ok s' \<and>
      heap s' 0 = None \<and> live_roots s' = 1 \<and> destructions 0 s' = 1"
proof -
  have h: "heap example_state 0 = Some (example_root ''/a/b'')"
    by (simp add: example_state_def)
  have r: "refcnt (example_root ''/a/b'') = 1"
    by (simp add: example_root_def)
  have b: "balanced [AddRef, AddRef, DelRefRaw, DelRefRaw, DelRefRaw]"
    by (simp add: balanced_def less_Suc_eq)
  from refcount_conservation [OF h r b, THEN conjunct1] show ?thesis
    by (simp add: destructions_def example_state_def)
qed

section \<open>Finding the enclosing root\<close>

lemma put_root_same:
  assumes "heap s rt = Some r"
  shows "put_root rt r s = s"
  using assms by (simp add: put_root_def fun_upd_idem)

lemma put_root_twice [simp]: "put_root rt r (put_root rt r' s) = put_root rt r s"
  by (simp add: put_root_def)

lemma heap_put_root [simp]: "heap (put_root rt r s) rt = Some r"
  by (simp add: put_root_def)

lemma w_root_addref_Ok:
  assumes "heap s rt = Some r"
  shows "w_root_addref rt s = Ok (put_root rt (r\<lparr>refcnt := refcnt r + 1\<rparr>) s)"
  using assms by (simp add: w_root_addref_def)

lemma borrow_and_release:
  assumes "heap s rt = Some r" and "refcnt r \<noteq> 0"
  shows "w_root_delref_raw rt (put_root rt (r\<lparr>refcnt := refcnt r + 1\<rparr>) s) = Ok s"
proof -
  have "w_root_delref_raw rt (put_root rt (r\<lparr>refcnt := refcnt r + 1\<rparr>) s) =
      Ok (put_root rt (r\<lparr>refcnt := refcnt r + 1, refcnt := refcnt r + 1 - 1\<rparr>)
            (put_root rt (r\<lparr>refcnt := refcnt r + 1\<rparr>) s))"
    using assms(2) by (subst w_root_delref_raw_more [where r = "r\<lparr>refcnt := refcnt r + 1\<rparr>"]) simp_all
  then show ?thesis
    by (simp add: put_root_same [OF assms(1)])
qed

lemma match_iff_aligned_prefix:
  "(w_string_startswith f k \<and> (length f = length k \<or> is_slash e (f ! length k))) =
     aligned_prefix e k f"
proof
  assume m: "w_string_startswith f k \<and> (length f = length k \<or> is_slash e (f ! length k))"
  then have le: "length k \<le> length f" and tk: "take (length k) f = k"
    by (simp_all add: w_string_startswith_def)
  show "aligned_prefix e k f"
  proof (cases "length f = length k")
    case True
    with tk have "f = k" by simp
    then show ?thesis by (simp add: aligned_prefix_def)
  next
    case False
    with le have lt: "length k < length f" by simp
    have "f = take (length k) f @ f ! length k # drop (Suc (length k)) f"
      using lt by (simp add: id_take_nth_drop [symmetric])
    with tk have "f = k @ f ! length k # drop (Suc (length k)) f" by simp
    moreover from m False have "is_slash e (f ! length k)" by simp
    ultimately show ?thesis unfolding aligned_prefix_def by blast
  qed
next
  assume "aligned_prefix e k f"
  then consider "f = k" | c rest where "f = k @ c # rest" "is_slash e c"
    unfolding aligned_prefix_def by blast
  then show "w_string_startswith f k \<and> (length f = length k \<or> is_slash e (f ! length k))"
    by cases (simp_all add: w_string_startswith_def)
qed

lemma registry_ok_entry:
  assumes "registry_ok s" and "(k, rt) \<in> set (watched_roots s)"
  obtains r where "heap s rt = Some r" and "root_path r = k" and "0 < refcnt r"
  using assms by (auto simp: registry_ok_def list_all_iff split: option.splits)

lemma w_find_enclosing_root_none:
  assumes "\<not> (\<exists>k \<in> fst ` set (watched_roots s). aligned_prefix e k f)"
  shows "w_find_enclosing_root e m d f relpath s = Ok ((None, relpath), s)"
proof -
  have "List.find (\<lambda>(root_name, rt). w_string_startswith f root_name \<and>
          (length f = length root_name \<or> is_slash e (f ! length root_name)))
        (watched_roots s) = None"
    using assms by (force simp: find_None_iff match_iff_aligned_prefix)
  then show ?thesis by (simp add: w_find_enclosing_root_def)
qed

lemma w_find_enclosing_root_some:
  assumes ok: "registry_ok s"
    and ex: "\<exists>k \<in> fst ` set (watched_roots s). aligned_prefix e k f"
  shows "\<exists>k \<in> fst ` set (watched_roots s). aligned_prefix e k f \<and>
      w_find_enclosing_root e m d f relpath s =
        Ok (if m then (Some k, if f = k \<or> \<not> d then None else Some (drop (length k + 1) f))
            else (None, relpath), s)"
proof -
  define P where "P = (\<lambda>(root_name, rt :: root_ptr). w_string_startswith f root_name \<and>
          (length f = length root_name \<or> is_slash e (f ! length root_name)))"
  from ex have "\<exists>x \<in> set (watched_roots s). P x"
    by (force simp: P_def match_iff_aligned_prefix)
  then have "List.find P (watched_roots s) \<noteq> None"
    using find_None_iff [of P "watched_roots s"] by blast
  then obtain k rt where found: "List.find P (watched_roots s) = Some (k, rt)"
    by (cases "List.find P (watched_roots s)") auto
  then have mem: "(k, rt) \<in> set (watched_roots s)" and Pk: "P (k, rt)"
    by (auto simp: find_Some_iff)
  from Pk have al: "aligned_prefix e k f"
    by (simp add: P_def match_iff_aligned_prefix)
  from registry_ok_entry [OF ok mem] obtain r
    where h: "heap s rt = Some r" and path: "root_path r = k" and cnt: "0 < refcnt r"
    by blast
  from al have len: "length k \<le> length f" and tk: "take (length k) f = k"
    and eq: "length k = length f \<longleftrightarrow> f = k"
    unfolding aligned_prefix_def by auto
  have rel: "w_root_delref_raw rt (put_root rt (r\<lparr>refcnt := refcnt r + 1\<rparr>) s) = Ok s"
    using cnt by (intro borrow_and_release [OF h]) simp
  have "w_find_enclosing_root e m d f relpath s =
      Ok (if m then (Some k, if f = k \<or> \<not> d then None else Some (drop (length k + 1) f))
          else (None, relpath), s)"
    using len tk eq
    by (simp add: w_find_enclosing_root_def P_def [symmetric] found w_root_addref_Ok [OF h]
        path rel Let_def)
  with mem al show ?thesis by force
qed

lemma example_state_ok: "registry_ok example_state"
  by (simp add: registry_ok_def example_state_def example_root_def)

lemma example_slash: "is_slash example_env c = (c = CHR ''/'')"
  by (simp add: example_env_def)

text \<open>
  C1. Let every registry entry be stored under its root's own path, with its reference
  counted, and let \<open>malloc\<close> and \<open>strdup\<close> succeed. When some registered root path is a
  path-component-aligned prefix of the file name \<open>f\<close>, \<open>w_find_enclosing_root\<close> returns such
  a registered path \<open>k\<close> as the prefix: with \<open>*relpath = NULL\<close> when \<open>f\<close> is \<open>k\<close>, and with the
  rest of \<open>f\<close> after the separator that follows \<open>k\<close> otherwise. When no registered root
  path is such a prefix (as \<open>/a/b\<close> is none of \<open>/a/bc\<close>), it returns \<open>NULL\<close> and leaves
  \<open>*relpath\<close> alone, whatever the allocator does. The state is the same after the call: the
  reference taken on the found root is given back.
\<close>

theorem find_enclosing_root_aligned_prefix:
  assumes ok: "registry_ok s"
  shows "((\<exists>k \<in> fst ` set (watched_roots s). aligned_prefix e k f) \<longrightarrow>
            (\<exists>k \<in> fst ` set (watched_roots s).
               (f = k \<and>
                w_find_enclosing_root e True True f relpath s = Ok ((Some k, None), s)) \<or>
               (\<exists>c rest. f = k @ c # rest \<and> is_slash e c \<and>
                  w_find_enclosing_root e True True f relpath s =
                    Ok ((Some k, Some rest), s)))) \<and>
         (\<not> (\<exists>k \<in> fst ` set (watched_roots s). aligned_prefix e k f) \<longrightarrow>
            w_find_enclosing_root e malloc_ok strdup_ok f relpath s = Ok ((None, relpath), s))"
proof (intro conjI impI)
  assume "\<exists>k \<in> fst ` set (watched_roots s). aligned_prefix e k f"
  from w_find_enclosing_root_some [OF ok this, of True True relpath]
  obtain k where mem: "k \<in> fst ` set (watched_roots s)" and al: "aligned_prefix e k f"
    and res: "w_find_enclosing_root e True True f relpath s =
        Ok ((Some k, if f = k then None else Some (drop (length k + 1) f)), s)"
    by auto
  show "\<exists>k \<in> fst ` set (watched_roots s).
      (f = k \<and> w_find_enclosing_root e True True f relpath s = Ok ((Some k, None), s)) \<or>
      (\<exists>c rest. f = k @ c # rest \<and> is_slash e c \<and>
         w_find_enclosing_root e True True f relpath s = Ok ((Some k, Some rest), s))"
  proof (cases "f = k")
    case True
    with res mem show ?thesis by auto
  next
    case False
    with al obtain c rest where f: "f = k @ c # rest" and sl: "is_slash e c"
      unfolding aligned_prefix_def by blast
    from f have "drop (length k + 1) f = rest" by simp
    with res False have "w_find_enclosing_root e True True f relpath s =
        Ok ((Some k, Some rest), s)" by simp
    with f sl mem show ?thesis by blast
  qed
next
  assume "\<not> (\<exists>k \<in> fst ` set (watched_roots s). aligned_prefix e k f)"
  then show "w_find_enclosing_root e malloc_ok strdup_ok f relpath s = Ok ((None, relpath), s)"
    by (rule w_find_enclosing_root_none)
qed

theorem find_enclosing_root_aligned_prefix_witness:
  "w_find_enclosing_root example_env True True ''/a/b/c'' None example_state =
     Ok ((Some ''/a/b'', Some ''c''), example_state) \<and>
   w_find_enclosing_root example_env True True ''/a/b'' None example_state =
     Ok ((Some ''/a/b'', None), example_state) \<and>
   w_find_enclosing_root example_env True True ''/a/bc'' None example_state =
     Ok ((None, None), example_state)"
proof -
  have w: "watched_roots example_state = [(''/a/b'', 1)]"
    by (simp add: example_state_def)
  have inside: "aligned_prefix example_env ''/a/b'' ''/a/b/c''"
    unfolding aligned_prefix_def
    by (intro disjI2 exI [of _ "CHR ''/''"] exI [of _ "''c''"]) (simp add: example_slash)
  have same: "aligned_prefix example_env ''/a/b'' ''/a/b''"
    by (simp add: aligned_prefix_def)
  have other: "\<not> aligned_prefix example_env ''/a/b'' ''/a/bc''"
    by (simp add: aligned_prefix_def example_slash)
  from find_enclosing_root_aligned_prefix [OF example_state_ok, of example_env "''/a/b/c''" None,
      THEN conjunct1] inside
  have 1: "w_find_enclosing_root example_env True True ''/a/b/c'' None example_state =
     Ok ((Some ''/a/b'', Some ''c''), example_state)"
    by (auto simp: w)
  from find_enclosing_root_aligned_prefix [OF example_state_ok, of example_env "''/a/b''" None,
      THEN conjunct1] same
  have 2: "w_find_enclosing_root example_env True True ''/a/b'' None example_state =
     Ok ((Some ''/a/b'', None), example_state)"
    by (auto simp: w)
  from find_enclosing_root_aligned_prefix [OF example_state_ok, of example_env "''/a/bc''" None
      True True, THEN conjunct2] other
  have 3: "w_find_enclosing_root example_env True True ''/a/bc'' None example_state =
     Ok ((None, None), example_state)"
    by (simp add: w)
  from 1 2 3 show ?thesis by simp
qed

section \<open>Removing a root from the registry\<close>

text \<open>
  C4. \<open>remove_root_from_watched\<close> looks the root's own path up. When the entry stored
  there is this very root object, it returns true, the entry is erased (with distinct keys
  the map no longer has the path) and the registry's reference is released: the count is
  one less, and the root is deleted when that was its last reference. When the path is
  absent or maps to another object, it returns false and the whole state, the registry
  included, is as before.
\<close>

theorem remove_root_from_watched_identity:
  assumes alive: "heap s rt = Some r"
  shows "(map_of (watched_roots s) (root_path r) = Some rt \<longrightarrow>
            (\<exists>s'. remove_root_from_watched rt s = Ok (True, s') \<and>
               watched_roots s' = erase (root_path r) (watched_roots s) \<and>
               (distinct (map fst (watched_roots s)) \<longrightarrow>
                  map_of (watched_roots s') = (map_of (watched_roots s))(root_path r := None)) \<and>
               heap s' rt =
                 (if refcnt r = 1 then None else Some (r\<lparr>refcnt := refcnt r - 1\<rparr>)))) \<and>
         (map_of (watched_roots s) (root_path r) \<noteq> Some rt \<longrightarrow>
            remove_root_from_watched rt s = Ok (False, s))"
proof (intro conjI impI)
  assume stored: "map_of (watched_roots s) (root_path r) = Some rt"
  define s0 where "s0 = s\<lparr>watched_roots := erase (root_path r) (watched_roots s)\<rparr>"
  have h0: "heap s0 rt = Some r" using alive by (simp add: s0_def)
  have call: "remove_root_from_watched rt s =
      rbind (w_root_delref_raw rt s0) (\<lambda>s'. Ok (True, s'))"
    using alive stored by (simp add: remove_root_from_watched_def s0_def)
  show "\<exists>s'. remove_root_from_watched rt s = Ok (True, s') \<and>
      watched_roots s' = erase (root_path r) (watched_roots s) \<and>
      (distinct (map fst (watched_roots s)) \<longrightarrow>
         map_of (watched_roots s') = (map_of (watched_roots s))(root_path r := None)) \<and>
      heap s' rt = (if refcnt r = 1 then None else Some (r\<lparr>refcnt := refcnt r - 1\<rparr>))"
  proof (cases "refcnt r = 1")
    case True
    from w_root_delref_raw_last [OF h0 True] call True show ?thesis
      by (simp add: s0_def map_of_erase)
  next
    case False
    from w_root_delref_raw_more [OF h0 False] call False show ?thesis
      by (simp add: s0_def put_root_def map_of_erase)
  qed
next
  assume "map_of (watched_roots s) (root_path r) \<noteq> Some rt"
  then show "remove_root_from_watched rt s = Ok (False, s)"
    using alive by (auto simp: remove_root_from_watched_def split: option.splits)
qed

theorem remove_root_from_watched_identity_witness:
  "(\<exists>s'. remove_root_from_watched 1 example_state = Ok (True, s') \<and>
      watched_roots s' = [] \<and> heap s' 1 = None) \<and>
   remove_root_from_watched 0 example_state = Ok (False, example_state)"
proof -
  have h1: "heap example_state 1 = Some (example_root ''/a/b'')"
    and h0: "heap example_state 0 = Some (example_root ''/a/b'')"
    by (simp_all add: example_state_def)
  have w: "watched_roots example_state = [(''/a/b'', 1)]"
    by (simp add: example_state_def)
  have p: "root_path (example_root ''/a/b'') = ''/a/b''" "refcnt (example_root ''/a/b'') = 1"
    by (simp_all add: example_root_def)
  show ?thesis
    using remove_root_from_watched_identity [OF h1] remove_root_from_watched_identity [OF h0]
    by (simp add: w p)
qed

section \<open>The order of teardown\<close>

text \<open>
  C10. For a root with a watcher backend, \<open>w_root_teardown\<close> drains the primary queue
  and resets the view's root directory before it calls the watcher's \<open>root_dtor\<close> hook,
  and calls the hook before \<open>Inner\<close>'s destructor destroys the symlink-target queue; it
  does not destroy the primary queue. In the destructor of the root the same order holds,
  and the hook also comes before the primary queue is destroyed.
\<close>

theorem teardown_order:
  assumes alive: "heap s p = Some r" and hook: "watcher_ops r \<noteq> None"
  shows "(\<exists>ev. snd (w_root_teardown p r tr) = tr @ ev \<and>
            before (PendingCollDrain p Primary) (WatcherRootDtor p) ev \<and>
            before (RootDirReset p) (WatcherRootDtor p) ev \<and>
            before (WatcherRootDtor p) (PendingCollDestroy p SymlinkTargets) ev \<and>
            PendingCollDestroy p SymlinkTargets \<in> set ev \<and>
            PendingCollDestroy p Primary \<notin> set ev) \<and>
         (\<exists>s' ev. delete_root p s = Ok s' \<and> trace s' = trace s @ ev \<and>
            before (PendingCollDrain p Primary) (WatcherRootDtor p) ev \<and>
            before (RootDirReset p) (WatcherRootDtor p) ev \<and>
            before (WatcherRootDtor p) (PendingCollDestroy p SymlinkTargets) ev \<and>
            before (WatcherRootDtor p) (PendingCollDestroy p Primary) ev \<and>
            PendingCollDestroy p SymlinkTargets \<in> set ev \<and>
            PendingCollDestroy p Primary \<in> set ev)"
proof
  show "\<exists>ev. snd (w_root_teardown p r tr) = tr @ ev \<and>
            before (PendingCollDrain p Primary) (WatcherRootDtor p) ev \<and>
            before (RootDirReset p) (WatcherRootDtor p) ev \<and>
            before (WatcherRootDtor p) (PendingCollDestroy p SymlinkTargets) ev \<and>
            PendingCollDestroy p SymlinkTargets \<in> set ev \<and>
            PendingCollDestroy p Primary \<notin> set ev"
    using hook by (simp add: w_root_teardown_trace)
  show "\<exists>s' ev. delete_root p s = Ok s' \<and> trace s' = trace s @ ev \<and>
            before (PendingCollDrain p Primary) (WatcherRootDtor p) ev \<and>
            before (RootDirReset p) (WatcherRootDtor p) ev \<and>
            before (WatcherRootDtor p) (PendingCollDestroy p SymlinkTargets) ev \<and>
            before (WatcherRootDtor p) (PendingCollDestroy p Primary) ev \<and>
            PendingCollDestroy p SymlinkTargets \<in> set ev \<and>
            PendingCollDestroy p Primary \<in> set ev"
    using hook by (simp add: delete_root_Ok [OF alive] dtor_events_def)
qed

theorem teardown_order_witness:
  "\<exists>s' ev. delete_root 1 example_state = Ok s' \<and> trace s' = trace example_state @ ev \<and>
      before (PendingCollDrain 1 Primary) (WatcherRootDtor 1) ev \<and>
      before (RootDirReset 1) (WatcherRootDtor 1) ev \<and>
      before (WatcherRootDtor 1) (PendingCollDestroy 1 SymlinkTargets) ev \<and>
      before (WatcherRootDtor 1) (PendingCollDestroy 1 Primary) ev"
proof -
  have h1: "heap example_state 1 = Some (example_root ''/a/b'')"
    by (simp add: example_state_def)
  have w: "watcher_ops (example_root ''/a/b'') \<noteq> None"
    by (simp add: example_root_def)
  from teardown_order [OF h1 w, THEN conjunct2] show ?thesis
    by blast
qed

section \<open>The ignore configuration\<close>

lemma apply_ignore_loop_step:
  assumes "unat i < length xs"
  shows "apply_ignore_loop e (Some (JArray xs)) i r tr =
     apply_ignore_loop e (Some (JArray xs)) (i + 1)
       (r\<lparr>ignore := ignore r @ ignore_additions e (root_path r) [xs ! unat i]\<rparr>)
       (tr @ [ignore_log e (root_path r) (xs ! unat i)])"
  using assms
  by (subst apply_ignore_loop.simps)
    (cases "xs ! unat i"; simp add: Let_def w_ignore_addstr_def)

lemma apply_ignore_loop_exit:
  assumes "\<not> unat i < json_array_size ignores"
  shows "apply_ignore_loop e ignores i r tr = Some (r, tr)"
  using assms by (subst apply_ignore_loop.simps) simp

lemma unat_succ_u8:
  fixes i :: "8 word"
  assumes "unat i < 255"
  shows "unat (i + 1) = Suc (unat i)"
proof -
  have "unat (i + 1) = (unat i + 1) mod 256"
    by (simp add: unat_word_ariths)
  with assms show ?thesis by simp
qed

lemma ignore_additions_append:
  "ignore_additions e path (xs @ ys) = ignore_additions e path xs @ ignore_additions e path ys"
  by (induction e path xs rule: ignore_additions.induct) simp_all

lemma apply_ignore_loop_terminates:
  assumes "length xs \<le> 255" and "unat i \<le> length xs"
  shows "apply_ignore_loop e (Some (JArray xs)) i r tr =
           Some (r\<lparr>ignore := ignore r @ ignore_additions e (root_path r) (drop (unat i) xs)\<rparr>,
                 tr @ map (ignore_log e (root_path r)) (drop (unat i) xs))"
  using assms(2)
proof (induction "length xs - unat i" arbitrary: i r tr)
  case 0
  then have "unat i = length xs" by simp
  then show ?case by (simp add: apply_ignore_loop_exit)
next
  case (Suc k)
  then have lt: "unat i < length xs" by simp
  with assms(1) have succ: "unat (i + 1) = Suc (unat i)"
    by (intro unat_succ_u8) simp
  define r' where "r' = r\<lparr>ignore := ignore r @ ignore_additions e (root_path r) [xs ! unat i]\<rparr>"
  define tr' where "tr' = tr @ [ignore_log e (root_path r) (xs ! unat i)]"
  have IH: "apply_ignore_loop e (Some (JArray xs)) (i + 1) r' tr' =
      Some (r'\<lparr>ignore := ignore r' @ ignore_additions e (root_path r') (drop (unat (i + 1)) xs)\<rparr>,
            tr' @ map (ignore_log e (root_path r')) (drop (unat (i + 1)) xs))"
    using Suc.hyps(2) lt succ by (intro Suc.hyps(1)) simp_all
  have d: "drop (unat i) xs = [xs ! unat i] @ drop (Suc (unat i)) xs"
    using lt by (simp add: Cons_nth_drop_Suc)
  have adds: "ignore_additions e (root_path r) (drop (unat i) xs) =
      ignore_additions e (root_path r) [xs ! unat i] @
      ignore_additions e (root_path r) (drop (Suc (unat i)) xs)"
    by (subst d) (rule ignore_additions_append)
  have logs: "map (ignore_log e (root_path r)) (drop (unat i) xs) =
      ignore_log e (root_path r) (xs ! unat i) #
      map (ignore_log e (root_path r)) (drop (Suc (unat i)) xs)"
    by (subst d) simp
  show ?case
    unfolding apply_ignore_loop_step [OF lt] r'_def [symmetric] tr'_def [symmetric] IH
    by (simp add: r'_def tr'_def succ adds logs del: ignore_additions.simps)
qed

lemma apply_ignore_loop_Some_small:
  assumes "apply_ignore_loop e ignores i r tr = Some y"
  shows "json_array_size ignores < 256"
proof (rule apply_ignore_loop.raw_induct
    [where P = "\<lambda>e ignores i r tr y. json_array_size ignores < 256", OF _ assms], goal_cases)
  case (1 loop e ignores i r tr y)
  show ?case
  proof (cases "unat i < json_array_size ignores")
    case True
    with 1(2) have "\<exists>i' r' tr'. loop e ignores i' r' tr' = Some y"
      by (auto simp: Let_def split: if_splits)
    with 1(1) show ?thesis by blast
  next
    case False
    have "unat i < 256" using unsigned_less [of i, where ?'a = nat] by simp
    with False show ?thesis by simp
  qed
qed

lemma apply_ignore_loop_diverges:
  assumes "256 \<le> json_array_size ignores"
  shows "apply_ignore_loop e ignores i r tr = None"
proof (cases "apply_ignore_loop e ignores i r tr")
  case None
  then show ?thesis .
next
  case (Some y)
  from apply_ignore_loop_Some_small [OF Some] assms show ?thesis by simp
qed

lemma apply_ignore_configuration_array:
  assumes "cfg_get_json r ''ignore_dirs'' = Some (JArray xs)"
  shows "apply_ignore_configuration e r tr = apply_ignore_loop e (Some (JArray xs)) 0 r tr"
  using assms by (simp add: apply_ignore_configuration_def)

lemma apply_ignore_configuration_small:
  assumes "cfg_get_json r ''ignore_dirs'' = Some (JArray xs)" and "length xs \<le> 255"
  shows "apply_ignore_configuration e r tr =
     Some (r\<lparr>ignore := ignore r @ ignore_additions e (root_path r) xs\<rparr>,
           tr @ map (ignore_log e (root_path r)) xs)"
  using apply_ignore_loop_terminates [OF assms(2), of 0 e r tr]
  by (simp add: apply_ignore_configuration_array [OF assms(1)])

lemma apply_ignore_configuration_large:
  assumes "cfg_get_json r ''ignore_dirs'' = Some (JArray xs)" and "256 \<le> length xs"
  shows "apply_ignore_configuration e r tr = None"
  using apply_ignore_loop_diverges [of "Some (JArray xs)" e 0 r tr] assms(2)
  by (simp add: apply_ignore_configuration_array [OF assms(1)])

lemma load_root_config_parsed:
  assumes "w_path_exists e (cfgfilename_of e path) = FileExists"
    and "json_load_file e (cfgfilename_of e path) = Inr cfg"
  shows "load_root_config e path r tr = (r\<lparr>config_file := Some cfg\<rparr>, tr)"
  using assms by (simp add: load_root_config_def)

lemma w_root_new_diverges:
  assumes "w_path_exists e (cfgfilename_of e path) = FileExists"
    and "json_load_file e (cfgfilename_of e path) = Inr cfg"
    and "json_object_get (Some cfg) ''ignore_dirs'' = Some (JArray xs)"
    and "256 \<le> length xs"
  shows "w_root_new e path s = Diverges"
proof -
  have "apply_ignore_configuration e r tr = None" if "config_file r = Some cfg" for r tr
    using that assms(3,4) by (intro apply_ignore_configuration_large) (simp_all add: cfg_get_json_def)
  then show ?thesis
    by (simp add: w_root_new_def Let_def load_root_config_parsed [OF assms(1,2)])
qed

lemma apply_ignore_configuration_not_array:
  assumes "cfg_get_json r ''ignore_dirs'' = Some v" and "\<not> json_is_array (Some v)"
  shows "apply_ignore_configuration e r tr =
     Some (r, tr @ [Log W_LOG_ERR ''ignore_dirs must be an array of strings''])"
  using assms by (simp add: apply_ignore_configuration_def)

lemma w_root_init_ok:
  assumes "heap s rt = Some r"
    and "w_dir_open e (root_path r) = None"
    and "w_watcher_init e (root_path r) = Inr ops"
  shows "w_root_init e rt s =
     Ok (Inr (),
         s\<lparr>heap := (heap s)(rt \<mapsto> r\<lparr>watcher_ops := Some ops,
                 inner := (inner r)\<lparr>number := next_root_number s,
                   view_root_dir := Some (root_path r),
                   last_cmd_timestamp := time_now e\<rparr>\<rparr>),
           next_root_number := next_root_number s + 1\<rparr>)"
  using assms by (simp add: w_root_init_def Let_def put_root_def)

lemma configured_root_fields [simp]:
  "root_path (configured_root e path cfg) = path"
  "refcnt (configured_root e path cfg) = 1"
  "config_file (configured_root e path cfg) = cfg"
  "ignore (configured_root e path cfg) = []"
  "triggers (configured_root e path cfg) = []"
  "cancelled (configured_root e path cfg) = False"
  by (simp_all add: configured_root_def watchman_root_ctor_def Let_def)

lemma w_root_new_created:
  assumes cfg: "load_root_config e path
        ((watchman_root_ctor path)\<lparr>case_sensitive := is_case_sensitive_filesystem e path\<rparr>)
        (trace s @ [PendingCollInit (next_addr s) SymlinkTargets,
                    PendingCollInit (next_addr s) Primary]) =
      (((watchman_root_ctor path)\<lparr>case_sensitive := is_case_sensitive_filesystem e path,
          config_file := c\<rparr>), tr2)"
    and ign: "apply_ignore_configuration e (configured_root e path c) tr2 =
        Some ((configured_root e path c)\<lparr>ignore := adds\<rparr>, tr7)"
    and vcs: "ignore_vcs_dirs e ((configured_root e path c)\<lparr>ignore := adds\<rparr>) = Inr dirs"
    and dir: "w_dir_open e path = None"
    and watcher: "w_watcher_init e path = Inr ops"
  shows "w_root_new e path s =
     Ok (Inr (next_addr s),
         s\<lparr>heap := (heap s)(next_addr s \<mapsto>
                 (configured_root e path c)\<lparr>ignore := adds @ map (\<lambda>d. (d, True)) dirs,
                   watcher_ops := Some ops,
                   inner := Inner_ctor\<lparr>number := next_root_number s,
                     view_root_dir := Some path, last_cmd_timestamp := time_now e\<rparr>\<rparr>),
           next_addr := next_addr s + 1,
           live_roots := live_roots s + 1,
           next_root_number := next_root_number s + 1,
           trace := tr7\<rparr>)"
proof -
  define r7 where "r7 = (configured_root e path c)\<lparr>ignore := adds\<rparr>"
  define r8 where "r8 = r7\<lparr>ignore := ignore r7 @ map (\<lambda>d. (d, True)) dirs\<rparr>"
  define s8 where "s8 = put_root (next_addr s) r8
      (s\<lparr>heap := (heap s)(next_addr s \<mapsto> r7), next_addr := next_addr s + 1,
         live_roots := live_roots s + 1, trace := tr7\<rparr>)"
  have h8: "heap s8 (next_addr s) = Some r8" by (simp add: s8_def put_root_def)
  have p8: "root_path r8 = path" by (simp add: r8_def r7_def)
  have init: "w_root_init e (next_addr s) s8 =
     Ok (Inr (),
         s8\<lparr>heap := (heap s8)(next_addr s \<mapsto> r8\<lparr>watcher_ops := Some ops,
                 inner := (inner r8)\<lparr>number := next_root_number s8,
                   view_root_dir := Some (root_path r8),
                   last_cmd_timestamp := time_now e\<rparr>\<rparr>),
           next_root_number := next_root_number s8 + 1\<rparr>)"
    using dir watcher by (intro w_root_init_ok [OF h8]) (simp_all add: p8)
  have "w_root_new e path s = rbind (w_root_init e (next_addr s) s8) (\<lambda>(res, s9).
          case res of
            Inl errmsg \<Rightarrow>
              rbind (w_root_delref_raw (next_addr s) s9) (\<lambda>s10. Ok (Inl errmsg, s10))
          | Inr u \<Rightarrow> Ok (Inr (next_addr s), s9))"
    using cfg ign vcs
    by (simp add: w_root_new_def Let_def configured_root_def [symmetric, unfolded Let_def]
        r7_def r8_def s8_def)
  then show ?thesis
    unfolding init
    by (simp add: s8_def r8_def r7_def put_root_def configured_root_def Let_def
        watchman_root_ctor_def)
qed

lemma cfgfilename_with_ignore_dirs:
  "cfgfilename_of (with_ignore_dirs v example_env) ''/cfg'' = ''/cfg/.watchmanconfig''"
  by (simp add: cfgfilename_of_def with_ignore_dirs_def example_env_def)

lemma cfgfilename_example:
  "cfgfilename_of example_env ''/cfg'' = ''/cfg/.watchmanconfig''"
  by (simp add: cfgfilename_of_def example_env_def)

lemma ignore_dirs_root_fields:
  "config_file (ignore_dirs_root v) = Some (JObject [(''ignore_dirs'', v)])"
  "root_path (ignore_dirs_root v) = ''/r''"
  "ignore (ignore_dirs_root v) = []"
  "cfg_get_json (ignore_dirs_root v) ''ignore_dirs'' = Some v"
  by (simp_all add: ignore_dirs_root_def example_root_def cfg_get_json_def)

lemma pathCat_example: "pathCat example_env [a, b] = a @ ''/'' @ b"
  by (simp add: example_env_def)

text \<open>
  C9. The loop of \<open>apply_ignore_configuration\<close> counts with an 8-bit unsigned counter.
  For an \<open>ignore_dirs\<close> array of at most 255 entries it returns, having visited each
  entry once and in order: one log line per entry, one addition per string entry. For an
  array of 256 or more entries the counter wraps to 0 before it reaches the size: the loop
  never returns, and neither does \<open>w_root_new\<close> for a root whose \<open>.watchmanconfig\<close> has such
  an array.
\<close>

theorem ignore_loop_uint8_counter:
  assumes dirs: "json_object_get (Some cfg) ''ignore_dirs'' = Some (JArray xs)"
  shows "(length xs \<le> 255 \<and> config_file r = Some cfg \<longrightarrow>
            apply_ignore_configuration e r tr =
              Some (r\<lparr>ignore := ignore r @ ignore_additions e (root_path r) xs\<rparr>,
                    tr @ map (ignore_log e (root_path r)) xs)) \<and>
         (256 \<le> length xs \<and> config_file r = Some cfg \<longrightarrow>
            apply_ignore_configuration e r tr = None) \<and>
         (256 \<le> length xs \<and> w_path_exists e (cfgfilename_of e path) = FileExists \<and>
            json_load_file e (cfgfilename_of e path) = Inr cfg \<longrightarrow>
            w_root_new e path s = Diverges)"
proof (intro conjI impI)
  assume "length xs \<le> 255 \<and> config_file r = Some cfg"
  then show "apply_ignore_configuration e r tr =
      Some (r\<lparr>ignore := ignore r @ ignore_additions e (root_path r) xs\<rparr>,
            tr @ map (ignore_log e (root_path r)) xs)"
    using dirs by (intro apply_ignore_configuration_small) (simp_all add: cfg_get_json_def)
next
  assume "256 \<le> length xs \<and> config_file r = Some cfg"
  then have big: "256 \<le> length xs" and "cfg_get_json r ''ignore_dirs'' = Some (JArray xs)"
    using dirs by (simp_all add: cfg_get_json_def)
  then show "apply_ignore_configuration e r tr = None"
    by (intro apply_ignore_configuration_large)
next
  assume "256 \<le> length xs \<and> w_path_exists e (cfgfilename_of e path) = FileExists \<and>
            json_load_file e (cfgfilename_of e path) = Inr cfg"
  then have "256 \<le> length xs" and "w_path_exists e (cfgfilename_of e path) = FileExists"
    and "json_load_file e (cfgfilename_of e path) = Inr cfg"
    by simp_all
  then show "w_root_new e path s = Diverges"
    using dirs by (intro w_root_new_diverges)
qed

theorem ignore_loop_uint8_counter_witness:
  "apply_ignore_configuration example_env
      ((example_root ''/r'')\<lparr>config_file :=
         Some (JObject [(''ignore_dirs'', JArray [JString ''a'', JBool True, JString ''b''])])\<rparr>) [] =
     Some ((example_root ''/r'')\<lparr>config_file :=
              Some (JObject [(''ignore_dirs'', JArray [JString ''a'', JBool True, JString ''b''])]),
              ignore := [(''/r/a'', False), (''/r/b'', False)]\<rparr>,
           [Log W_LOG_DBG ''ignoring /r/a recursively'',
            Log W_LOG_ERR ''ignore_dirs must be an array of strings'',
            Log W_LOG_DBG ''ignoring /r/b recursively'']) \<and>
   apply_ignore_configuration example_env
      ((example_root ''/r'')\<lparr>config_file :=
         Some (JObject [(''ignore_dirs'', JArray (replicate 256 (JString ''a'')))])\<rparr>) [] = None \<and>
   w_root_new (with_ignore_dirs (JArray (replicate 256 (JString ''a''))) example_env) ''/cfg''
     example_state = Diverges"
proof -
  have small: "json_object_get
      (Some (JObject [(''ignore_dirs'', JArray [JString ''a'', JBool True, JString ''b''])]))
      ''ignore_dirs'' = Some (JArray [JString ''a'', JBool True, JString ''b''])"
    by simp
  have big: "json_object_get
      (Some (JObject [(''ignore_dirs'', JArray (replicate 256 (JString ''a'')))]))
      ''ignore_dirs'' = Some (JArray (replicate 256 (JString ''a'')))"
    by simp
  have env1: "w_path_exists (with_ignore_dirs v example_env) ''/cfg/.watchmanconfig'' = FileExists"
    "json_load_file (with_ignore_dirs v example_env) ''/cfg/.watchmanconfig'' =
       Inr (JObject [(''ignore_dirs'', v)])" for v
    by (simp_all add: with_ignore_dirs_def example_env_def)
  have cat: "pathCat example_env [a, b] = a @ ''/'' @ b" for a b
    by (simp add: example_env_def)
  show ?thesis
    using ignore_loop_uint8_counter [OF small, of "(example_root ''/r'')\<lparr>config_file :=
         Some (JObject [(''ignore_dirs'', JArray [JString ''a'', JBool True, JString ''b''])])\<rparr>"
         example_env "[]", THEN conjunct1]
      ignore_loop_uint8_counter [OF big, of "(example_root ''/r'')\<lparr>config_file :=
         Some (JObject [(''ignore_dirs'', JArray (replicate 256 (JString ''a'')))])\<rparr>"
         example_env "[]", THEN conjunct2, THEN conjunct1]
      ignore_loop_uint8_counter [OF big,
         where e = "with_ignore_dirs (JArray (replicate 256 (JString ''a''))) example_env"
           and path = "''/cfg''" and s = example_state, THEN conjunct2, THEN conjunct2]
    by (simp add: env1 cat example_root_def cfgfilename_with_ignore_dirs)
qed

text \<open>
  C8, amended. Let the root's config have \<open>ignore_dirs\<close>, not an array or an array of at
  most 255 entries. For an array, \<open>apply_ignore_configuration\<close> adds every string entry,
  resolved against the root path, to the ignore set, in order; a non-string entry gets
  one error line and is skipped, and the entries after it are still visited. A value that
  is not an array gets one error line and nothing is added. In both cases the call
  returns, and \<open>w_root_new\<close> goes on: where the VCS ignores of this root resolve, its
  directory opens and its watcher attaches, it returns the new root, counted as live, with
  these additions and then the VCS ignores.
\<close>

theorem ignore_dirs_configuration:
  assumes dirs: "json_object_get (Some cfg) ''ignore_dirs'' = Some v"
    and size: "\<not> json_is_array (Some v) \<or> json_array_size (Some v) \<le> 255"
  shows "(config_file r = Some cfg \<longrightarrow>
            apply_ignore_configuration e r tr =
              Some (if json_is_array (Some v)
                    then (r\<lparr>ignore := ignore r @
                              ignore_additions e (root_path r) (json_array_elems (Some v))\<rparr>,
                          tr @ map (ignore_log e (root_path r)) (json_array_elems (Some v)))
                    else (r, tr @ [Log W_LOG_ERR ''ignore_dirs must be an array of strings'']))) \<and>
         (w_path_exists e (cfgfilename_of e path) = FileExists \<and>
          json_load_file e (cfgfilename_of e path) = Inr cfg \<and>
          ignore_vcs_dirs e
            ((configured_root e path (Some cfg))\<lparr>ignore :=
               (if json_is_array (Some v)
                then ignore_additions e path (json_array_elems (Some v)) else [])\<rparr>) = Inr vcs \<and>
          w_dir_open e path = None \<and> w_watcher_init e path = Inr ops \<longrightarrow>
            (\<exists>s' r'. w_root_new e path s = Ok (Inr (next_addr s), s') \<and>
               heap s' (next_addr s) = Some r' \<and> root_path r' = path \<and> refcnt r' = 1 \<and>
               live_roots s' = live_roots s + 1 \<and>
               ignore r' =
                 (if json_is_array (Some v)
                  then ignore_additions e path (json_array_elems (Some v)) else []) @
                 map (\<lambda>d. (d, True)) vcs))"
proof (intro conjI impI)
  assume c: "config_file r = Some cfg"
  show "apply_ignore_configuration e r tr =
      Some (if json_is_array (Some v)
            then (r\<lparr>ignore := ignore r @
                      ignore_additions e (root_path r) (json_array_elems (Some v))\<rparr>,
                  tr @ map (ignore_log e (root_path r)) (json_array_elems (Some v)))
            else (r, tr @ [Log W_LOG_ERR ''ignore_dirs must be an array of strings'']))"
  proof (cases "json_is_array (Some v)")
    case True
    then obtain xs where v: "v = JArray xs" by (cases v) simp_all
    with size have "length xs \<le> 255" by simp
    with dirs c v show ?thesis
      by (simp add: apply_ignore_configuration_small cfg_get_json_def)
  next
    case False
    with dirs c show ?thesis
      by (simp add: apply_ignore_configuration_not_array cfg_get_json_def)
  qed
next
  assume env: "w_path_exists e (cfgfilename_of e path) = FileExists \<and>
          json_load_file e (cfgfilename_of e path) = Inr cfg \<and>
          ignore_vcs_dirs e
            ((configured_root e path (Some cfg))\<lparr>ignore :=
               (if json_is_array (Some v)
                then ignore_additions e path (json_array_elems (Some v)) else [])\<rparr>) = Inr vcs \<and>
          w_dir_open e path = None \<and> w_watcher_init e path = Inr ops"
  define adds where "adds =
      (if json_is_array (Some v)
       then ignore_additions e path (json_array_elems (Some v)) else [])"
  define r6 where "r6 = configured_root e path (Some cfg)"
  define tr2 where "tr2 = trace s @ [PendingCollInit (next_addr s) SymlinkTargets,
      PendingCollInit (next_addr s) Primary]"
  have "\<exists>tr7. apply_ignore_configuration e r6 tr2 = Some (r6\<lparr>ignore := adds\<rparr>, tr7)"
  proof (cases "json_is_array (Some v)")
    case True
    then obtain xs where v: "v = JArray xs" by (cases v) simp_all
    with size have "length xs \<le> 255" by simp
    with dirs v show ?thesis
      by (simp add: apply_ignore_configuration_small cfg_get_json_def r6_def adds_def)
  next
    case False
    have "r6\<lparr>ignore := adds\<rparr> = r6"
      using False by (simp add: adds_def r6_def configured_root_def Let_def watchman_root_ctor_def)
    with False dirs show ?thesis
      by (simp add: apply_ignore_configuration_not_array cfg_get_json_def r6_def)
  qed
  then obtain tr7 where
    ign: "apply_ignore_configuration e r6 tr2 = Some (r6\<lparr>ignore := adds\<rparr>, tr7)" ..
  have cfg: "load_root_config e path
        ((watchman_root_ctor path)\<lparr>case_sensitive := is_case_sensitive_filesystem e path\<rparr>)
        tr2 =
      (((watchman_root_ctor path)\<lparr>case_sensitive := is_case_sensitive_filesystem e path,
          config_file := Some cfg\<rparr>), tr2)"
    using env by (simp add: load_root_config_parsed)
  from env have vcs: "ignore_vcs_dirs e ((configured_root e path (Some cfg))\<lparr>ignore := adds\<rparr>) = Inr vcs"
    and dir: "w_dir_open e path = None" and watcher: "w_watcher_init e path = Inr ops"
    by (simp_all add: adds_def)
  show "\<exists>s' r'. w_root_new e path s = Ok (Inr (next_addr s), s') \<and>
      heap s' (next_addr s) = Some r' \<and> root_path r' = path \<and> refcnt r' = 1 \<and>
      live_roots s' = live_roots s + 1 \<and>
      ignore r' =
        (if json_is_array (Some v)
         then ignore_additions e path (json_array_elems (Some v)) else []) @
        map (\<lambda>d. (d, True)) vcs"
    unfolding w_root_new_created [OF cfg [unfolded tr2_def] ign [unfolded r6_def tr2_def] vcs dir watcher]
    by (simp add: adds_def)
qed

theorem ignore_dirs_configuration_witness:
  "apply_ignore_configuration example_env (ignore_dirs_root (JArray [JInt 1, JString ''a''])) [] =
     Some ((ignore_dirs_root (JArray [JInt 1, JString ''a'']))\<lparr>ignore := [(''/r/a'', False)]\<rparr>,
           [Log W_LOG_ERR ''ignore_dirs must be an array of strings'',
            Log W_LOG_DBG ''ignoring /r/a recursively'']) \<and>
   apply_ignore_configuration example_env (ignore_dirs_root (JString ''a'')) [] =
     Some (ignore_dirs_root (JString ''a''),
           [Log W_LOG_ERR ''ignore_dirs must be an array of strings'']) \<and>
   (\<exists>s' r'. w_root_new vcs_env ''/cfg'' example_state = Ok (Inr 2, s') \<and>
      heap s' 2 = Some r' \<and> root_path r' = ''/cfg'' \<and> refcnt r' = 1 \<and> live_roots s' = 3 \<and>
      ignore r' = [(''/cfg/a'', False), (''/cfg/.git'', True)])"
proof -
  have arr: "json_object_get (Some (JObject [(''ignore_dirs'', JArray [JInt 1, JString ''a''])]))
      ''ignore_dirs'' = Some (JArray [JInt 1, JString ''a''])"
    and str: "json_object_get (Some (JObject [(''ignore_dirs'', JString ''a'')]))
      ''ignore_dirs'' = Some (JString ''a'')"
    by simp_all
  have small: "\<not> json_is_array (Some (JArray [JInt 1, JString ''a''])) \<or>
      json_array_size (Some (JArray [JInt 1, JString ''a''])) \<le> 255"
    and nonarr: "\<not> json_is_array (Some (JString ''a'')) \<or>
      json_array_size (Some (JString ''a'')) \<le> 255"
    by simp_all
  have env: "w_path_exists vcs_env ''/cfg/.watchmanconfig'' = FileExists"
    "json_load_file vcs_env ''/cfg/.watchmanconfig'' =
       Inr (JObject [(''ignore_dirs'', JArray [JInt 1, JString ''a''])])"
    "ignore_vcs_dirs vcs_env r' = Inr [root_path r' @ ''/.git'']"
    "w_dir_open vcs_env ''/cfg'' = None"
    "w_watcher_init vcs_env ''/cfg'' = Inr ''inotify''"
    "cfgfilename_of vcs_env ''/cfg'' = ''/cfg/.watchmanconfig''"
    "pathCat vcs_env [a, b] = a @ ''/'' @ b" for r' a b
    by (simp_all add: vcs_env_def example_env_def cfgfilename_of_def)
  have st: "next_addr example_state = 2" "live_roots example_state = 2"
    by (simp_all add: example_state_def)
  show ?thesis
    using ignore_dirs_configuration [OF arr small,
        where r = "ignore_dirs_root (JArray [JInt 1, JString ''a''])" and e = example_env
          and tr = "[]", THEN conjunct1]
      ignore_dirs_configuration [OF str nonarr,
        where r = "ignore_dirs_root (JString ''a'')" and e = example_env
          and tr = "[]", THEN conjunct1]
      ignore_dirs_configuration [OF arr small,
        where e = vcs_env and path = "''/cfg''" and s = example_state
          and vcs = "[''/cfg/.git'']" and ops = "''inotify''", THEN conjunct2]
    by (simp add: env st ignore_dirs_root_fields pathCat_example)
qed

text \<open>
  The claim as the spec words it has a non-string entry abort the step. With
  \<open>ignore_dirs = [1, "a"]\<close> the entry after the non-string one is still added: the result is
  not the root as it was with the one error line.
\<close>

theorem ignore_dirs_nonstring_counterexample:
  "apply_ignore_configuration example_env (ignore_dirs_root (JArray [JInt 1, JString ''a''])) [] =
     Some ((ignore_dirs_root (JArray [JInt 1, JString ''a'']))\<lparr>ignore := [(''/r/a'', False)]\<rparr>,
           [Log W_LOG_ERR ''ignore_dirs must be an array of strings'',
            Log W_LOG_DBG ''ignoring /r/a recursively'']) \<and>
   apply_ignore_configuration example_env (ignore_dirs_root (JArray [JInt 1, JString ''a''])) [] \<noteq>
     Some (ignore_dirs_root (JArray [JInt 1, JString ''a'']),
           [Log W_LOG_ERR ''ignore_dirs must be an array of strings''])"
proof -
  have "apply_ignore_configuration example_env
      (ignore_dirs_root (JArray [JInt 1, JString ''a''])) [] =
     Some ((ignore_dirs_root (JArray [JInt 1, JString ''a'']))\<lparr>ignore := [(''/r/a'', False)]\<rparr>,
           [Log W_LOG_ERR ''ignore_dirs must be an array of strings'',
            Log W_LOG_DBG ''ignoring /r/a recursively''])"
    by (subst apply_ignore_configuration_small [where xs = "[JInt 1, JString ''a'']"])
      (simp_all add: ignore_dirs_root_fields pathCat_example)
  then show ?thesis by simp
qed

section \<open>Saving and loading the state\<close>

lemma rbind_Ok_iff: "rbind m f = Ok y \<longleftrightarrow> (\<exists>x. m = Ok x \<and> f x = Ok y)"
  by (cases m) simp_all

lemma apply_ignore_loop_frame:
  assumes "apply_ignore_loop e ignores i r tr = Some y"
  shows "fst y = r\<lparr>ignore := ignore (fst y)\<rparr>"
proof (rule apply_ignore_loop.raw_induct
    [where P = "\<lambda>e ignores i r tr y. fst y = r\<lparr>ignore := ignore (fst y)\<rparr>", OF _ assms],
    goal_cases)
  case (1 loop e ignores i r tr y)
  show ?case
  proof (cases "unat i < json_array_size ignores")
    case False
    with 1(2) show ?thesis by auto
  next
    case True
    show ?thesis
    proof (cases "json_is_string (json_array_get ignores (unat i))")
      case False
      with True 1(2) have "loop e ignores (i + 1) r
          (tr @ [Log W_LOG_ERR ''ignore_dirs must be an array of strings'']) = Some y"
        by (simp add: Let_def)
      from 1(1) [OF this] show ?thesis .
    next
      case s: True
      define r' where "r' = w_ignore_addstr r
          (pathCat e [root_path r, json_to_w_string (json_array_get ignores (unat i))]) False"
      from True s 1(2) have "loop e ignores (i + 1) r'
          (tr @ [Log W_LOG_DBG (''ignoring '' @
             pathCat e [root_path r, json_to_w_string (json_array_get ignores (unat i))] @
             '' recursively'')]) = Some y"
        by (simp add: Let_def r'_def)
      from 1(1) [OF this] have "fst y = r'\<lparr>ignore := ignore (fst y)\<rparr>" .
      then show ?thesis by (simp add: r'_def w_ignore_addstr_def)
    qed
  qed
qed

lemma apply_ignore_configuration_frame:
  assumes "apply_ignore_configuration e r tr = Some (r', tr')"
  shows "r' = r\<lparr>ignore := ignore r'\<rparr>"
proof (cases "cfg_get_json r ''ignore_dirs'' \<noteq> None \<and> json_is_array (cfg_get_json r ''ignore_dirs'')")
  case True
  with assms have "apply_ignore_loop e (cfg_get_json r ''ignore_dirs'') 0 r tr = Some (r', tr')"
    by (simp add: apply_ignore_configuration_def Let_def)
  from apply_ignore_loop_frame [OF this] show ?thesis by simp
next
  case False
  with assms have "r' = r"
    by (auto simp: apply_ignore_configuration_def Let_def split: if_splits)
  then show ?thesis by simp
qed

lemma load_root_config_frame:
  "\<exists>c. fst (load_root_config e path r tr) = r\<lparr>config_file := c\<rparr>"
proof (cases "w_path_exists e (cfgfilename_of e path)")
  case FileExists
  then show ?thesis
    by (cases "json_load_file e (cfgfilename_of e path)")
      (auto simp: load_root_config_def)
next
  case FileENOENT
  then have "fst (load_root_config e path r tr) = r\<lparr>config_file := config_file r\<rparr>"
    by (simp add: load_root_config_def)
  then show ?thesis by blast
next
  case (FileError msg)
  then have "fst (load_root_config e path r tr) = r\<lparr>config_file := config_file r\<rparr>"
    by (simp add: load_root_config_def)
  then show ?thesis by blast
qed

lemma w_root_init_frame:
  assumes "w_root_init e rt s = Ok (Inr u, s')" and "heap s rt = Some r"
  shows "watched_roots s' = watched_roots s \<and>
         (\<exists>r'. heap s' rt = Some r' \<and> root_path r' = root_path r \<and> refcnt r' = refcnt r \<and>
               triggers r' = triggers r \<and> cancelled r' = cancelled r)"
  using assms
  by (auto simp: w_root_init_def Let_def put_root_def split: option.splits sum.splits)

lemma w_root_new_Ok:
  assumes "w_root_new e path s = Ok (Inr rt, s1)"
  shows "rt = next_addr s \<and> watched_roots s1 = watched_roots s \<and>
         (\<exists>r1. heap s1 rt = Some r1 \<and> root_path r1 = path \<and> refcnt r1 = 1 \<and>
               triggers r1 = [] \<and> \<not> cancelled r1)"
proof -
  define r1 where "r1 = (watchman_root_ctor path)\<lparr>case_sensitive := is_case_sensitive_filesystem e path\<rparr>"
  define tr1 where "tr1 = trace s @ [PendingCollInit (next_addr s) SymlinkTargets,
      PendingCollInit (next_addr s) Primary]"
  obtain r2 tr2 where cfg: "load_root_config e path r1 tr1 = (r2, tr2)"
    by (cases "load_root_config e path r1 tr1")
  from load_root_config_frame [of e path r1 tr1] cfg obtain c
    where r2: "r2 = r1\<lparr>config_file := c\<rparr>" by auto
  define r6 where "r6 = configured_root e path c"
  have unfold: "w_root_new e path s =
     (case apply_ignore_configuration e r6 tr2 of
        None \<Rightarrow> Diverges
      | Some (r7, tr7) \<Rightarrow>
          (let s7 = s\<lparr>heap := (heap s)(next_addr s \<mapsto> r7), next_addr := next_addr s + 1,
                      live_roots := live_roots s + 1, trace := tr7\<rparr>
           in case ignore_vcs_dirs e r7 of
                Inl errmsg \<Rightarrow>
                  rbind (w_root_delref_raw (next_addr s) s7) (\<lambda>s8. Ok (Inl errmsg, s8))
              | Inr dirs \<Rightarrow>
                  (let r8 = r7\<lparr>ignore := ignore r7 @ map (\<lambda>d. (d, True)) dirs\<rparr>;
                       s8 = put_root (next_addr s) r8 s7
                   in rbind (w_root_init e (next_addr s) s8) (\<lambda>(res, s9).
                        case res of
                          Inl errmsg \<Rightarrow>
                            rbind (w_root_delref_raw (next_addr s) s9)
                              (\<lambda>s10. Ok (Inl errmsg, s10))
                        | Inr u \<Rightarrow> Ok (Inr (next_addr s), s9)))))"
    using cfg [unfolded r1_def tr1_def]
    by (simp add: w_root_new_def Let_def r6_def r2 r1_def configured_root_def)
  from assms unfold obtain r7 tr7
    where ign: "apply_ignore_configuration e r6 tr2 = Some (r7, tr7)"
    by (cases "apply_ignore_configuration e r6 tr2") auto
  from apply_ignore_configuration_frame [OF ign] have r7: "r7 = r6\<lparr>ignore := ignore r7\<rparr>" .
  define s7 where "s7 = s\<lparr>heap := (heap s)(next_addr s \<mapsto> r7), next_addr := next_addr s + 1,
                      live_roots := live_roots s + 1, trace := tr7\<rparr>"
  from assms unfold ign obtain dirs where vcs: "ignore_vcs_dirs e r7 = Inr dirs"
    by (cases "ignore_vcs_dirs e r7") (auto simp: Let_def rbind_Ok_iff)
  define r8 where "r8 = r7\<lparr>ignore := ignore r7 @ map (\<lambda>d. (d, True)) dirs\<rparr>"
  define s8 where "s8 = put_root (next_addr s) r8 s7"
  have h8: "heap s8 (next_addr s) = Some r8" by (simp add: s8_def put_root_def)
  from assms unfold ign vcs
  have "rbind (w_root_init e (next_addr s) s8) (\<lambda>(res, s9).
                        case res of
                          Inl errmsg \<Rightarrow>
                            rbind (w_root_delref_raw (next_addr s) s9)
                              (\<lambda>s10. Ok (Inl errmsg, s10))
                        | Inr u \<Rightarrow> Ok (Inr (next_addr s), s9)) = Ok (Inr rt, s1)"
    by (simp add: Let_def s7_def r8_def s8_def)
  then obtain res s9 where init0: "w_root_init e (next_addr s) s8 = Ok (res, s9)"
    and k: "(case res of
               Inl errmsg \<Rightarrow>
                 rbind (w_root_delref_raw (next_addr s) s9) (\<lambda>s10. Ok (Inl errmsg, s10))
             | Inr u \<Rightarrow> Ok (Inr (next_addr s), s9)) = Ok (Inr rt, s1)"
    by (auto simp: rbind_Ok_iff)
  from k obtain u where res: "res = Inr u" and rt: "rt = next_addr s" and s9: "s9 = s1"
    by (cases res) (auto simp: rbind_Ok_iff)
  from init0 res s9 have init: "w_root_init e (next_addr s) s8 = Ok (Inr u, s1)"
    by simp
  have "root_path r8 = path" "refcnt r8 = 1" "triggers r8 = []" "\<not> cancelled r8"
    by (subst r8_def, subst r7, simp add: r6_def)+
  with w_root_init_frame [OF init h8] rt show ?thesis
    by (auto simp: s8_def s7_def put_root_def)
qed

lemma root_resolve_created:
  assumes none: "map_of (watched_roots s) path = None"
    and new: "w_root_new e path s = Ok (Inr rt, s1)"
  shows "\<exists>r1. heap s1 rt = Some r1 \<and> root_path r1 = path \<and> refcnt r1 = 1 \<and>
           triggers r1 = [] \<and> \<not> cancelled r1 \<and>
           root_resolve e (Some path) True s =
             Ok (Inr (rt, True),
                 put_root rt (r1\<lparr>refcnt := 2\<rparr>)
                   (s1\<lparr>watched_roots := watched_roots s @ [(path, rt)]\<rparr>))"
proof -
  from w_root_new_Ok [OF new] obtain r1
    where w: "watched_roots s1 = watched_roots s" and h: "heap s1 rt = Some r1"
      and f: "root_path r1 = path" "refcnt r1 = 1" "triggers r1 = []" "\<not> cancelled r1"
    by blast
  have "heap (s1\<lparr>watched_roots := watched_roots s1 @ [(path, rt)]\<rparr>) rt = Some r1"
    using h by simp
  from w_root_addref_Ok [OF this]
  have "root_resolve e (Some path) True s =
      Ok (Inr (rt, True),
          put_root rt (r1\<lparr>refcnt := 2\<rparr>) (s1\<lparr>watched_roots := watched_roots s @ [(path, rt)]\<rparr>))"
    using none new w f(2) by (simp add: root_resolve_def)
  with h f show ?thesis by blast
qed

lemma w_root_cancel_effect:
  assumes "heap s rt = Some r"
  shows "\<exists>won s' r'. w_root_cancel rt s = Ok (won, s') \<and> heap s' rt = Some r' \<and>
           cancelled r' \<and> root_path r' = root_path r \<and> refcnt r' = refcnt r \<and>
           triggers r' = triggers r \<and> watched_roots s' = watched_roots s \<and>
           live_roots s' = live_roots s \<and> next_addr s' = next_addr s \<and>
           set (trace s) \<subseteq> set (trace s') \<and> (\<forall>q. q \<noteq> rt \<longrightarrow> heap s' q = heap s q)"
proof (cases "cancelled r")
  case True
  with assms show ?thesis by (auto simp: w_root_cancel_def)
next
  case False
  with assms show ?thesis
    by (auto simp: w_root_cancel_def split_beta w_root_teardown_root w_root_teardown_trace
        put_root_def)
qed

lemma start_phase:
  assumes h: "heap s2 rt = Some r2"
  shows "\<exists>s5 r5. (if created then
             rbind (root_start e rt s2) (\<lambda>(err, s3).
               case err of
                 None \<Rightarrow> Ok s3
               | Some errmsg \<Rightarrow>
                   rbind (w_root_cancel rt
                            (emit (Log W_LOG_ERR
                                     (''root_start('' @ path @ '') failed: '' @ errmsg))
                               s3))
                     (\<lambda>(won, s4). Ok s4))
           else Ok s2) = Ok s5 \<and>
         heap s5 rt = Some r5 \<and> root_path r5 = root_path r2 \<and> refcnt r5 = refcnt r2 \<and>
         triggers r5 = triggers r2 \<and> watched_roots s5 = watched_roots s2 \<and>
         live_roots s5 = live_roots s2 \<and> next_addr s5 = next_addr s2 \<and>
         cancelled r5 = (cancelled r2 \<or> created \<and> root_start_error e (root_path r2) \<noteq> None) \<and>
         set (trace s2) \<subseteq> set (trace s5) \<and>
         (\<forall>errmsg. created \<and> root_start_error e (root_path r2) = Some errmsg \<longrightarrow>
            Log W_LOG_ERR (''root_start('' @ path @ '') failed: '' @ errmsg) \<in> set (trace s5)) \<and>
         (\<forall>q. q \<noteq> rt \<longrightarrow> heap s5 q = heap s2 q)"
proof (cases "created \<and> root_start_error e (root_path r2) \<noteq> None")
  case False
  then consider "\<not> created" | "created" "root_start_error e (root_path r2) = None" by blast
  then show ?thesis
  proof cases
    case 1
    with h show ?thesis by simp
  next
    case 2
    with h show ?thesis by (auto simp: root_start_def emit_def)
  qed
next
  case True
  then obtain errmsg where c: created and err: "root_start_error e (root_path r2) = Some errmsg"
    by auto
  define s3 where "s3 = emit (Log W_LOG_ERR (''root_start('' @ path @ '') failed: '' @ errmsg)) s2"
  have h3: "heap s3 rt = Some r2" using h by (simp add: s3_def emit_def)
  from w_root_cancel_effect [OF h3] obtain won s5 r5
    where "w_root_cancel rt s3 = Ok (won, s5)" "heap s5 rt = Some r5" "cancelled r5"
      "root_path r5 = root_path r2" "refcnt r5 = refcnt r2" "triggers r5 = triggers r2"
      "watched_roots s5 = watched_roots s3" "live_roots s5 = live_roots s3"
      "next_addr s5 = next_addr s3"
      "set (trace s3) \<subseteq> set (trace s5)"
      "\<forall>q. q \<noteq> rt \<longrightarrow> heap s5 q = heap s3 q"
    by blast
  with c err h show ?thesis
    by (auto simp: root_start_def s3_def emit_def)
qed

lemma load_triggers_append:
  "load_triggers e r (xs @ ys) acc = load_triggers e r ys (load_triggers e r xs acc)"
proof (induction xs arbitrary: acc)
  case Nil
  show ?case by (cases acc) simp
next
  case (Cons x xs)
  obtain m tr where acc: "acc = (m, tr)" by (cases acc)
  show ?case
    unfolding acc
    by (cases "w_build_trigger_from_def e r x") (simp_all add: Cons.IH Let_def)
qed

lemma load_triggers_rules:
  assumes "json_object_get (Some tobj) ''rules'' \<noteq> None"
  shows "load_triggers e r (tobj # rest) acc = load_triggers e r rest acc"
  using assms by (cases acc) (simp add: Let_def)

lemma load_watched_entry_effect:
  assumes res: "root_resolve e (json_string_value (json_object_get (Some obj) ''path'')) True s =
      Ok (Inr (rt, created), s1)"
    and h: "heap s1 rt = Some r"
  defines "loaded \<equiv> load_triggers e r (json_array_elems (json_object_get (Some obj) ''triggers''))
      (triggers r, trace s1)"
  shows "\<exists>s'. load_watched_entry e obj s = Ok s' \<and> watched_roots s' = watched_roots s1 \<and>
      next_addr s' = next_addr s1 \<and>
      set (snd loaded) \<subseteq> set (trace s') \<and>
      (\<forall>errmsg. created \<and> root_start_error e (root_path r) = Some errmsg \<longrightarrow>
         Log W_LOG_ERR (''root_start('' @ root_path r @ '') failed: '' @ errmsg) \<in> set (trace s')) \<and>
      (\<forall>q. q \<noteq> rt \<longrightarrow> heap s' q = heap s1 q) \<and>
      (if refcnt r = 1 then heap s' rt = None \<and> live_roots s' = live_roots s1 - 1
       else live_roots s' = live_roots s1 \<and>
         (\<exists>r'. heap s' rt = Some r' \<and> root_path r' = root_path r \<and>
            refcnt r' = refcnt r - 1 \<and> triggers r' = fst loaded \<and>
            cancelled r' =
              (cancelled r \<or> created \<and> root_start_error e (root_path r) \<noteq> None)))"
proof -
  obtain m tr where mt: "loaded = (m, tr)" by (cases loaded)
  define s2 where "s2 = (put_root rt (r\<lparr>triggers := m\<rparr>) s1)\<lparr>trace := tr\<rparr>"
  define r2 where "r2 = r\<lparr>triggers := m\<rparr>"
  have unfold: "load_watched_entry e obj s =
      rbind (if created then
             rbind (root_start e rt s2) (\<lambda>(err, s3).
               case err of
                 None \<Rightarrow> Ok s3
               | Some errmsg \<Rightarrow>
                   rbind (w_root_cancel rt
                            (emit (Log W_LOG_ERR
                                     (''root_start('' @ root_path r @ '') failed: '' @ errmsg))
                               s3))
                     (\<lambda>(won, s4). Ok s4))
           else Ok s2)
        (\<lambda>s5. rbind (w_root_delref (Some rt) s5) (\<lambda>(unlocked, s6). Ok s6))"
    using mt [unfolded loaded_def]
    by (simp add: load_watched_entry_def Let_def res h s2_def)
  have h2: "heap s2 rt = Some r2" by (simp add: s2_def r2_def put_root_def)
  from start_phase [OF h2, of created e "root_path r"] obtain s5 r5
    where phase: "(if created then
             rbind (root_start e rt s2) (\<lambda>(err, s3).
               case err of
                 None \<Rightarrow> Ok s3
               | Some errmsg \<Rightarrow>
                   rbind (w_root_cancel rt
                            (emit (Log W_LOG_ERR
                                     (''root_start('' @ root_path r @ '') failed: '' @ errmsg))
                               s3))
                     (\<lambda>(won, s4). Ok s4))
           else Ok s2) = Ok s5"
      and h5: "heap s5 rt = Some r5"
      and f5: "root_path r5 = root_path r2" "refcnt r5 = refcnt r2" "triggers r5 = triggers r2"
        "watched_roots s5 = watched_roots s2" "live_roots s5 = live_roots s2"
        "next_addr s5 = next_addr s2"
        "cancelled r5 = (cancelled r2 \<or> created \<and> root_start_error e (root_path r2) \<noteq> None)"
        "set (trace s2) \<subseteq> set (trace s5)"
      and log5: "\<forall>errmsg. created \<and> root_start_error e (root_path r2) = Some errmsg \<longrightarrow>
            Log W_LOG_ERR (''root_start('' @ root_path r @ '') failed: '' @ errmsg) \<in> set (trace s5)"
      and other5: "\<forall>q. q \<noteq> rt \<longrightarrow> heap s5 q = heap s2 q"
    by blast
  have entry: "load_watched_entry e obj s =
      rbind (w_root_delref (Some rt) s5) (\<lambda>(unlocked, s6). Ok s6)"
    unfolding unfold phase by simp
  show ?thesis
  proof (cases "refcnt r = 1")
    case True
    then have "refcnt r5 = 1" using f5 by (simp add: r2_def)
    from w_root_delref_raw_last [OF h5 this] entry True f5 log5 other5 show ?thesis
      by (auto simp: w_root_delref_def s2_def r2_def put_root_def mt)
  next
    case False
    then have "refcnt r5 \<noteq> 1" using f5 by (simp add: r2_def)
    from w_root_delref_raw_more [OF h5 this] entry False f5 log5 other5 show ?thesis
      by (auto simp: w_root_delref_def s2_def r2_def put_root_def mt)
  qed
qed

lemma load_watched_append:
  "load_watched e (xs @ ys) s = rbind (load_watched e xs s) (load_watched e ys)"
proof (induction xs arbitrary: s)
  case Nil
  show ?case by simp
next
  case (Cons x xs)
  show ?case
    by (cases "load_watched_entry e x s") (simp_all add: Cons.IH)
qed

lemma w_root_load_state_watched:
  "w_root_load_state e (JObject [(''watched'', JArray es)]) s =
     rbind (load_watched e es s) (\<lambda>s'. Ok (True, s'))"
  by (simp add: w_root_load_state_def)

lemma rbind_cong:
  assumes "m = m'" and "\<And>x. m' = Ok x \<Longrightarrow> f x = g x"
  shows "rbind m f = rbind m' g"
  using assms by (cases m') simp_all

lemma load_watched_entry_cong:
  assumes "json_object_get (Some obj) ''path'' = json_object_get (Some obj') ''path''"
    and "\<And>r acc. load_triggers e r (json_array_elems (json_object_get (Some obj) ''triggers'')) acc =
            load_triggers e r (json_array_elems (json_object_get (Some obj') ''triggers'')) acc"
  shows "load_watched_entry e obj s = load_watched_entry e obj' s"
  unfolding load_watched_entry_def Let_def assms(1)
proof (rule rbind_cong [OF refl], goal_cases)
  case (1 x)
  obtain res s1 where x: "x = (res, s1)" by (cases x)
  show ?case
  proof (cases res)
    case (Inl errmsg)
    with x show ?thesis by simp
  next
    case (Inr p)
    obtain rt created where p: "p = (rt, created)" by (cases p)
    show ?thesis
      by (cases "heap s1 rt") (simp_all add: x Inr p with_root_def assms(2))
  qed
qed

lemma load_new_entry:
  assumes none: "map_of (watched_roots s) path = None"
    and new: "w_root_new e path s = Ok (Inr rt, s1)"
    and obj: "json_string_value (json_object_get (Some obj) ''path'') = Some path"
  shows "\<exists>r1 s' r'. heap s1 rt = Some r1 \<and> root_path r1 = path \<and>
      load_watched_entry e obj s = Ok s' \<and>
      watched_roots s' = watched_roots s @ [(path, rt)] \<and>
      heap s' rt = Some r' \<and> root_path r' = path \<and> refcnt r' = 1 \<and>
      triggers r' = fst (load_triggers e (r1\<lparr>refcnt := 2\<rparr>)
                          (json_array_elems (json_object_get (Some obj) ''triggers''))
                          ([], trace s1)) \<and>
      cancelled r' = (root_start_error e path \<noteq> None) \<and>
      (\<forall>errmsg. root_start_error e path = Some errmsg \<longrightarrow>
         Log W_LOG_ERR (''root_start('' @ path @ '') failed: '' @ errmsg) \<in> set (trace s'))"
proof -
  from root_resolve_created [OF none new] obtain r1
    where h1: "heap s1 rt = Some r1" and f1: "root_path r1 = path" "refcnt r1 = 1"
      "triggers r1 = []" "\<not> cancelled r1"
      and res: "root_resolve e (Some path) True s =
             Ok (Inr (rt, True),
                 put_root rt (r1\<lparr>refcnt := 2\<rparr>)
                   (s1\<lparr>watched_roots := watched_roots s @ [(path, rt)]\<rparr>))"
    by blast
  define s1' where "s1' = put_root rt (r1\<lparr>refcnt := 2\<rparr>)
                   (s1\<lparr>watched_roots := watched_roots s @ [(path, rt)]\<rparr>)"
  have h: "heap s1' rt = Some (r1\<lparr>refcnt := 2\<rparr>)" by (simp add: s1'_def)
  have res': "root_resolve e (json_string_value (json_object_get (Some obj) ''path'')) True s =
      Ok (Inr (rt, True), s1')"
    using res obj by (simp add: s1'_def)
  from load_watched_entry_effect [OF res' h] h1 f1 show ?thesis
    by (auto simp: s1'_def put_root_def)
qed

lemma save_single_root:
  assumes reg: "watched_roots s0 = [(k, p)]" and h: "heap s0 p = Some r0"
    and trig: "triggers r0 = [(n, cmd0)]"
  shows "w_root_save_state (JObject kvs) s0 =
     Ok ((True, JObject (AList.update ''watched''
                  (JArray [JObject [(''path'', JString (root_path r0)),
                                    (''triggers'', JArray [definition_json cmd0])]]) kvs)),
         emit (Log W_LOG_DBG ''saving state'') s0)"
  using assms
  by (simp add: w_root_save_state_def emit_def with_root_def w_root_trigger_list_to_json_def)

lemma build_trigger_def_ex:
  assumes "w_query_parse e r trigger_def_ex = Inr q"
  shows "w_build_trigger_from_def e r trigger_def_ex =
     Inr \<lparr>triggername = ''t'', query = q, definition_json = trigger_def_ex,
          command = JArray [JString ''echo'', JString ''hi''],
          stdin_style = input_dev_null, current_proc = 0\<rparr>"
  using assms by (simp add: w_build_trigger_from_def_def) (simp add: trigger_def_ex_def)

lemma trigger_def_ex_no_rules: "json_object_get (Some trigger_def_ex) ''rules'' = None"
  by (simp add: trigger_def_ex_def)

lemma w_root_new_no_config:
  assumes cfg: "w_path_exists e (cfgfilename_of e path) = FileENOENT"
    and vcs: "\<And>r. ignore_vcs_dirs e r = Inr dirs"
    and dir: "w_dir_open e path = None"
    and watcher: "w_watcher_init e path = Inr ops"
  shows "\<exists>s1. w_root_new e path s = Ok (Inr (next_addr s), s1)"
proof -
  have c: "load_root_config e path
        ((watchman_root_ctor path)\<lparr>case_sensitive := is_case_sensitive_filesystem e path\<rparr>)
        (trace s @ [PendingCollInit (next_addr s) SymlinkTargets,
                    PendingCollInit (next_addr s) Primary]) =
      (((watchman_root_ctor path)\<lparr>case_sensitive := is_case_sensitive_filesystem e path,
          config_file := None\<rparr>),
       trace s @ [PendingCollInit (next_addr s) SymlinkTargets,
                  PendingCollInit (next_addr s) Primary])"
    using cfg by (simp add: load_root_config_def watchman_root_ctor_def)
  have "(configured_root e path None)\<lparr>ignore := []\<rparr> = configured_root e path None"
    by (simp add: configured_root_def Let_def watchman_root_ctor_def)
  then have ign: "apply_ignore_configuration e (configured_root e path None) tr =
      Some ((configured_root e path None)\<lparr>ignore := []\<rparr>, tr)" for tr
    by (simp add: apply_ignore_configuration_def cfg_get_json_def)
  from w_root_new_created [OF c ign vcs dir watcher] show ?thesis by blast
qed

lemma example_env_creates:
  assumes "cfgfilename_of example_env path \<noteq> ''/cfg/.watchmanconfig''"
  shows "\<exists>s1. w_root_new example_env path s = Ok (Inr (next_addr s), s1)"
  using assms
  by (intro w_root_new_no_config [where dirs = "[]" and ops = "''inotify''"])
    (simp_all add: example_env_def)

lemma example_cfgfilenames:
  "cfgfilename_of example_env ''/r'' = ''/r/.watchmanconfig''"
  "cfgfilename_of example_env ''/bad'' = ''/bad/.watchmanconfig''"
  by (simp_all add: cfgfilename_of_def example_env_def)

lemma load_single_trigger_entry:
  assumes none: "map_of (watched_roots s) path = None"
    and new: "w_root_new e path s = Ok (Inr rt, s1)"
    and parse: "\<forall>r. root_path r = path \<longrightarrow> (\<exists>q. w_query_parse e r trigger_def_ex = Inr q)"
    and obj: "json_string_value (json_object_get (Some obj) ''path'') = Some path"
    and trigs: "json_array_elems (json_object_get (Some obj) ''triggers'') = [trigger_def_ex]"
  shows "\<exists>s' r' cmd. load_watched_entry e obj s = Ok s' \<and>
      watched_roots s' = watched_roots s @ [(path, rt)] \<and>
      heap s' rt = Some r' \<and> root_path r' = path \<and> refcnt r' = 1 \<and>
      triggers r' = [(''t'', cmd)] \<and> triggername cmd = ''t'' \<and>
      definition_json cmd = trigger_def_ex"
proof -
  from load_new_entry [OF none new obj] obtain r1 s' r'
    where r1: "root_path r1 = path"
      and load: "load_watched_entry e obj s = Ok s'"
      and w: "watched_roots s' = watched_roots s @ [(path, rt)]"
      and h': "heap s' rt = Some r'" "root_path r' = path" "refcnt r' = 1"
      and t': "triggers r' = fst (load_triggers e (r1\<lparr>refcnt := 2\<rparr>)
                          (json_array_elems (json_object_get (Some obj) ''triggers''))
                          ([], trace s1))"
    by blast
  have "root_path (r1\<lparr>refcnt := 2\<rparr>) = path" using r1 by simp
  with parse obtain q where q: "w_query_parse e (r1\<lparr>refcnt := 2\<rparr>) trigger_def_ex = Inr q"
    by blast
  define cmd where "cmd = \<lparr>triggername = ''t'', query = q, definition_json = trigger_def_ex,
          command = JArray [JString ''echo'', JString ''hi''],
          stdin_style = input_dev_null, current_proc = 0\<rparr>"
  have "triggers r' = [(''t'', cmd)]"
    unfolding t' trigs
    by (simp add: build_trigger_def_ex [OF q] cmd_def trigger_def_ex_no_rules)
  with load w h' show ?thesis by (auto simp: cmd_def)
qed

lemma example_parse: "\<forall>r. root_path r = path \<longrightarrow>
    (\<exists>q. w_query_parse example_env r trigger_def_ex = Inr q)"
  by (simp add: example_env_def)

lemma watched_entry_get:
  "json_object_get (Some (watched_entry path defs)) ''path'' = Some (JString path)"
  "json_object_get (Some (watched_entry path defs)) ''triggers'' = Some (JArray defs)"
  by (simp_all add: watched_entry_def)

lemma example_build_nameless:
  "w_build_trigger_from_def example_env r nameless_def_ex = Inl ''invalid or missing name''"
  by (simp add: w_build_trigger_from_def_def example_env_def nameless_def_ex_def)

lemma example_build_def:
  "w_build_trigger_from_def example_env r trigger_def_ex = Inr example_trigger"
  by (simp add: build_trigger_def_ex [where q = "JArray [JString ''true'']"] example_env_def
      example_trigger_def)

lemma example_trigger_name: "triggername example_trigger = ''t''"
  by (simp add: example_trigger_def)

lemma nameless_no_rules: "json_object_get (Some nameless_def_ex) ''rules'' = None"
  by (simp add: nameless_def_ex_def)

text \<open>
  C2. Let the registry hold the single root \<open>/r\<close> with one trigger, whose definition is
  \<open>{"name":"t","command":["echo","hi"]}\<close>. \<open>w_root_save_state\<close> writes, under \<open>watched\<close>, the
  one entry with this path and this definition. Loading that document into a process with
  an empty registry, where the root \<open>/r\<close> can be created and the query collaborator accepts
  the definition, returns true and leaves exactly one registry entry, \<open>/r\<close>, whose root has
  exactly one trigger, named \<open>t\<close>, with the very same definition.
\<close>

theorem save_load_round_trip:
  assumes reg: "watched_roots s0 = [(''/r'', p)]" and h: "heap s0 p = Some r0"
    and path: "root_path r0 = ''/r''"
    and trig: "triggers r0 = [(n, cmd0)]" and def: "definition_json cmd0 = trigger_def_ex"
    and empty: "watched_roots s = []"
    and new: "w_root_new e ''/r'' s = Ok (Inr rt, s1)"
    and parse: "\<forall>r. root_path r = ''/r'' \<longrightarrow> (\<exists>q. w_query_parse e r trigger_def_ex = Inr q)"
  shows "\<exists>doc s0' s' r' cmd.
      w_root_save_state (JObject kvs) s0 = Ok ((True, doc), s0') \<and>
      json_object_get (Some doc) ''watched'' =
        Some (JArray [JObject [(''path'', JString ''/r''),
                               (''triggers'', JArray [trigger_def_ex])]]) \<and>
      w_root_load_state e doc s = Ok (True, s') \<and>
      watched_roots s' = [(''/r'', rt)] \<and> heap s' rt = Some r' \<and> root_path r' = ''/r'' \<and>
      triggers r' = [(''t'', cmd)] \<and> triggername cmd = ''t'' \<and>
      definition_json cmd = trigger_def_ex"
proof -
  define entry where "entry = JObject [(''path'', JString ''/r''),
      (''triggers'', JArray [trigger_def_ex])]"
  define doc where "doc = JObject (AList.update ''watched'' (JArray [entry]) kvs)"
  have save: "w_root_save_state (JObject kvs) s0 =
      Ok ((True, doc), emit (Log W_LOG_DBG ''saving state'') s0)"
    using save_single_root [OF reg h trig, of kvs] by (simp add: doc_def entry_def path def)
  have watched: "json_object_get (Some doc) ''watched'' = Some (JArray [entry])"
    by (simp add: doc_def update_conv')
  have none: "map_of (watched_roots s) ''/r'' = None" by (simp add: empty)
  have obj: "json_string_value (json_object_get (Some entry) ''path'') = Some ''/r''"
    by (simp add: entry_def)
  from load_new_entry [OF none new obj] obtain r1 s' r'
    where r1: "root_path r1 = ''/r''"
      and load: "load_watched_entry e entry s = Ok s'"
      and w: "watched_roots s' = watched_roots s @ [(''/r'', rt)]"
      and h': "heap s' rt = Some r'" "root_path r' = ''/r''"
      and t': "triggers r' = fst (load_triggers e (r1\<lparr>refcnt := 2\<rparr>)
                          (json_array_elems (json_object_get (Some entry) ''triggers''))
                          ([], trace s1))"
    by blast
  have "root_path (r1\<lparr>refcnt := 2\<rparr>) = ''/r''" using r1 by simp
  with parse obtain q where q: "w_query_parse e (r1\<lparr>refcnt := 2\<rparr>) trigger_def_ex = Inr q"
    by blast
  define cmd where "cmd = \<lparr>triggername = ''t'', query = q, definition_json = trigger_def_ex,
          command = JArray [JString ''echo'', JString ''hi''],
          stdin_style = input_dev_null, current_proc = 0\<rparr>"
  have "triggers r' = [(''t'', cmd)]"
    unfolding t'
    by (simp add: entry_def build_trigger_def_ex [OF q] cmd_def trigger_def_ex_no_rules)
  moreover have "w_root_load_state e doc s = Ok (True, s')"
    by (simp add: w_root_load_state_def watched load)
  ultimately show ?thesis
    using save watched w h' empty by (auto simp: entry_def cmd_def)
qed

theorem save_load_round_trip_witness:
  "\<exists>doc s0' s' r' cmd.
      w_root_save_state (JObject []) saved_state = Ok ((True, doc), s0') \<and>
      json_object_get (Some doc) ''watched'' =
        Some (JArray [JObject [(''path'', JString ''/r''),
                               (''triggers'', JArray [trigger_def_ex])]]) \<and>
      w_root_load_state example_env doc empty_state = Ok (True, s') \<and>
      watched_roots s' = [(''/r'', 0)] \<and> heap s' 0 = Some r' \<and> root_path r' = ''/r'' \<and>
      triggers r' = [(''t'', cmd)] \<and> triggername cmd = ''t'' \<and>
      definition_json cmd = trigger_def_ex"
proof -
  have reg: "watched_roots saved_state = [(''/r'', 0)]"
    and h: "heap saved_state 0 = Some ((example_root ''/r'')\<lparr>triggers := [(''t'', example_trigger)]\<rparr>)"
    by (simp_all add: saved_state_def)
  have path: "root_path ((example_root ''/r'')\<lparr>triggers := [(''t'', example_trigger)]\<rparr>) = ''/r''"
    and trig: "triggers ((example_root ''/r'')\<lparr>triggers := [(''t'', example_trigger)]\<rparr>) =
      [(''t'', example_trigger)]"
    and def: "definition_json example_trigger = trigger_def_ex"
    by (simp_all add: example_root_def example_trigger_def)
  have empty: "watched_roots empty_state = []" and n: "next_addr empty_state = 0"
    by (simp_all add: empty_state_def)
  from example_env_creates [of "''/r''" empty_state] obtain s1
    where new: "w_root_new example_env ''/r'' empty_state = Ok (Inr 0, s1)"
    by (auto simp: n example_cfgfilenames)
  from save_load_round_trip [OF reg h path trig def empty new example_parse, of "[]"]
  show ?thesis .
qed

text \<open>
  C5. A trigger definition with a \<open>rules\<close> key is skipped on load: alone it leaves the
  trigger map and the trace as they were (no trigger, no error line), and anywhere in an
  entry's list the load does what it does on the list without it. So the entry's root is
  resolved or created as without it, the definitions after it are still handled, and the
  whole load has the same result and the same state.
\<close>

theorem legacy_rules_skipped:
  assumes legacy: "json_object_get (Some tobj) ''rules'' \<noteq> None"
    and path: "json_object_get (Some obj) ''path'' = json_object_get (Some obj') ''path''"
    and with_it: "json_array_elems (json_object_get (Some obj) ''triggers'') = pre @ tobj # post"
    and without_it: "json_array_elems (json_object_get (Some obj') ''triggers'') = pre @ post"
  shows "load_triggers e r [tobj] (m, tr) = (m, tr) \<and>
         load_triggers e r (pre @ tobj # post) (m, tr) = load_triggers e r (pre @ post) (m, tr) \<and>
         load_watched_entry e obj s = load_watched_entry e obj' s \<and>
         w_root_load_state e (JObject [(''watched'', JArray (es1 @ obj # es2))]) s =
           w_root_load_state e (JObject [(''watched'', JArray (es1 @ obj' # es2))]) s"
proof -
  have skip: "load_triggers e r (pre @ tobj # post) acc = load_triggers e r (pre @ post) acc"
    for r acc
    by (simp add: load_triggers_append load_triggers_rules [OF legacy])
  have entry: "load_watched_entry e obj s = load_watched_entry e obj' s" for s
    by (rule load_watched_entry_cong [OF path]) (simp add: with_it without_it skip)
  have "load_watched e (es1 @ obj # es2) s = load_watched e (es1 @ obj' # es2) s"
    unfolding load_watched_append
    by (rule rbind_cong [OF refl]) (simp add: entry)
  then show ?thesis
    using skip [of r "(m, tr)"] entry [of s] load_triggers_rules [OF legacy, of e r "[]" "(m, tr)"]
    by (simp add: w_root_load_state_watched)
qed

theorem legacy_rules_skipped_witness:
  "load_triggers example_env (example_root ''/r'') [legacy_def_ex] ([], []) = ([], []) \<and>
   w_root_load_state example_env
       (JObject [(''watched'', JArray [watched_entry ''/r'' [legacy_def_ex, trigger_def_ex]])])
       empty_state =
     w_root_load_state example_env
       (JObject [(''watched'', JArray [watched_entry ''/r'' [trigger_def_ex]])]) empty_state \<and>
   (\<exists>s' r' cmd. w_root_load_state example_env
       (JObject [(''watched'', JArray [watched_entry ''/r'' [legacy_def_ex, trigger_def_ex]])])
       empty_state = Ok (True, s') \<and>
      watched_roots s' = [(''/r'', 0)] \<and> heap s' 0 = Some r' \<and>
      triggers r' = [(''t'', cmd)] \<and> definition_json cmd = trigger_def_ex)"
proof -
  have legacy: "json_object_get (Some legacy_def_ex) ''rules'' \<noteq> None"
    by (simp add: legacy_def_ex_def)
  have path: "json_object_get (Some (watched_entry ''/r'' [legacy_def_ex, trigger_def_ex])) ''path'' =
      json_object_get (Some (watched_entry ''/r'' [trigger_def_ex])) ''path''"
    by (simp add: watched_entry_get)
  have with_it: "json_array_elems (json_object_get
      (Some (watched_entry ''/r'' [legacy_def_ex, trigger_def_ex])) ''triggers'') =
      [] @ legacy_def_ex # [trigger_def_ex]"
    and without_it: "json_array_elems (json_object_get
      (Some (watched_entry ''/r'' [trigger_def_ex])) ''triggers'') = [] @ [trigger_def_ex]"
    by (simp_all add: watched_entry_get)
  note skipped = legacy_rules_skipped [OF legacy path with_it without_it,
      of example_env "example_root ''/r''" "[]" "[]" empty_state "[]" "[]"]
  have empty: "map_of (watched_roots empty_state) ''/r'' = None"
    "watched_roots empty_state = []" and n: "next_addr empty_state = 0"
    by (simp_all add: empty_state_def)
  from example_env_creates [of "''/r''" empty_state] obtain s1
    where new: "w_root_new example_env ''/r'' empty_state = Ok (Inr 0, s1)"
    by (auto simp: n example_cfgfilenames)
  from load_single_trigger_entry [OF empty(1) new example_parse,
      of "watched_entry ''/r'' [trigger_def_ex]"]
  obtain s' r' cmd
    where "load_watched_entry example_env (watched_entry ''/r'' [trigger_def_ex]) empty_state = Ok s'"
      "watched_roots s' = [(''/r'', 0)]" "heap s' 0 = Some r'"
      "triggers r' = [(''t'', cmd)]" "definition_json cmd = trigger_def_ex"
    by (auto simp: empty watched_entry_get)
  then have "\<exists>s' r' cmd. w_root_load_state example_env
       (JObject [(''watched'', JArray [watched_entry ''/r'' [trigger_def_ex]])])
       empty_state = Ok (True, s') \<and>
      watched_roots s' = [(''/r'', 0)] \<and> heap s' 0 = Some r' \<and>
      triggers r' = [(''t'', cmd)] \<and> definition_json cmd = trigger_def_ex"
    by (simp add: w_root_load_state_watched)
  with skipped show ?thesis by simp
qed

lemma apply_ignore_configuration_returns:
  assumes "json_array_size (cfg_get_json r ''ignore_dirs'') \<le> 255"
  shows "\<exists>y. apply_ignore_configuration e r tr = Some y"
proof (cases "cfg_get_json r ''ignore_dirs''")
  case None
  then show ?thesis by (simp add: apply_ignore_configuration_def)
next
  case (Some v)
  show ?thesis
  proof (cases "json_is_array (Some v)")
    case False
    with Some show ?thesis by (simp add: apply_ignore_configuration_not_array)
  next
    case True
    then obtain xs where v: "v = JArray xs" by (cases v) simp_all
    with assms Some have "length xs \<le> 255" by simp
    with Some v show ?thesis by (simp add: apply_ignore_configuration_small)
  qed
qed

lemma load_root_config_served:
  assumes "config_file r = None"
  shows "config_file (fst (load_root_config e path r tr)) = None \<or>
         (\<exists>f cfg. json_load_file e f = Inr cfg \<and>
            config_file (fst (load_root_config e path r tr)) = Some cfg)"
proof (cases "w_path_exists e (cfgfilename_of e path)")
  case FileExists
  then show ?thesis
    by (cases "json_load_file e (cfgfilename_of e path)")
      (auto simp: load_root_config_def)
next
  case FileENOENT
  with assms show ?thesis by (simp add: load_root_config_def)
next
  case (FileError msg)
  with assms show ?thesis by (simp add: load_root_config_def)
qed

lemma w_root_init_cases:
  assumes "heap s rt = Some r"
  shows "(\<exists>msg. w_root_init e rt s = Ok (Inl msg, s)) \<or>
         (\<exists>u s' r'. w_root_init e rt s = Ok (Inr u, s') \<and> watched_roots s' = watched_roots s \<and>
            next_addr s' = next_addr s \<and> (\<forall>q. q \<noteq> rt \<longrightarrow> heap s' q = heap s q) \<and>
            heap s' rt = Some r' \<and> root_path r' = root_path r \<and> refcnt r' = refcnt r \<and>
            triggers r' = triggers r \<and> cancelled r' = cancelled r)"
proof (cases "w_dir_open e (root_path r)")
  case (Some err)
  with assms show ?thesis by (simp add: w_root_init_def)
next
  case None
  show ?thesis
  proof (cases "w_watcher_init e (root_path r)")
    case (Inl msg)
    with None assms show ?thesis by (simp add: w_root_init_def)
  next
    case (Inr ops)
    with None assms show ?thesis
      by (simp add: w_root_init_def Let_def put_root_def)
  qed
qed

lemma w_root_new_returns:
  assumes small: "small_ignore_dirs e"
  shows "\<exists>res s1. w_root_new e path s = Ok (res, s1) \<and>
      watched_roots s1 = watched_roots s \<and> next_addr s1 = Suc (next_addr s) \<and>
      (\<forall>q. q \<noteq> next_addr s \<longrightarrow> heap s1 q = heap s q) \<and>
      (case res of
         Inl msg \<Rightarrow> heap s1 (next_addr s) = None
       | Inr rt \<Rightarrow> rt = next_addr s \<and>
           (\<exists>r1. heap s1 rt = Some r1 \<and> root_path r1 = path \<and> refcnt r1 = 1 \<and>
                 triggers r1 = [] \<and> \<not> cancelled r1))"
proof -
  define r1 where "r1 = (watchman_root_ctor path)\<lparr>case_sensitive := is_case_sensitive_filesystem e path\<rparr>"
  define tr1 where "tr1 = trace s @ [PendingCollInit (next_addr s) SymlinkTargets,
      PendingCollInit (next_addr s) Primary]"
  obtain r2 tr2 where cfg: "load_root_config e path r1 tr1 = (r2, tr2)"
    by (cases "load_root_config e path r1 tr1")
  from load_root_config_frame [of e path r1 tr1] cfg obtain c
    where r2: "r2 = r1\<lparr>config_file := c\<rparr>" by auto
  have "config_file r1 = None" by (simp add: r1_def watchman_root_ctor_def)
  from load_root_config_served [OF this, of e path tr1] cfg r2
  have "c = None \<or> (\<exists>f cfg. json_load_file e f = Inr cfg \<and> c = Some cfg)" by simp
  then have csmall: "json_array_size (json_object_get c ''ignore_dirs'') \<le> 255"
    using small by (auto simp: small_ignore_dirs_def)
  define r6 where "r6 = configured_root e path c"
  have unfold: "w_root_new e path s =
     (case apply_ignore_configuration e r6 tr2 of
        None \<Rightarrow> Diverges
      | Some (r7, tr7) \<Rightarrow>
          (let s7 = s\<lparr>heap := (heap s)(next_addr s \<mapsto> r7), next_addr := next_addr s + 1,
                      live_roots := live_roots s + 1, trace := tr7\<rparr>
           in case ignore_vcs_dirs e r7 of
                Inl errmsg \<Rightarrow>
                  rbind (w_root_delref_raw (next_addr s) s7) (\<lambda>s8. Ok (Inl errmsg, s8))
              | Inr dirs \<Rightarrow>
                  (let r8 = r7\<lparr>ignore := ignore r7 @ map (\<lambda>d. (d, True)) dirs\<rparr>;
                       s8 = put_root (next_addr s) r8 s7
                   in rbind (w_root_init e (next_addr s) s8) (\<lambda>(res, s9).
                        case res of
                          Inl errmsg \<Rightarrow>
                            rbind (w_root_delref_raw (next_addr s) s9)
                              (\<lambda>s10. Ok (Inl errmsg, s10))
                        | Inr u \<Rightarrow> Ok (Inr (next_addr s), s9)))))"
    using cfg [unfolded r1_def tr1_def]
    by (simp add: w_root_new_def Let_def r6_def r2 r1_def configured_root_def)
  have "json_array_size (cfg_get_json r6 ''ignore_dirs'') \<le> 255"
    using csmall by (simp add: cfg_get_json_def r6_def)
  from apply_ignore_configuration_returns [OF this, of e tr2] obtain r7 tr7
    where ign: "apply_ignore_configuration e r6 tr2 = Some (r7, tr7)"
    by auto
  from apply_ignore_configuration_frame [OF ign] have r7: "r7 = r6\<lparr>ignore := ignore r7\<rparr>" .
  have f7: "root_path r7 = path" "refcnt r7 = 1" "triggers r7 = []" "\<not> cancelled r7"
    by (subst r7, simp add: r6_def)+
  define s7 where "s7 = s\<lparr>heap := (heap s)(next_addr s \<mapsto> r7), next_addr := next_addr s + 1,
                      live_roots := live_roots s + 1, trace := tr7\<rparr>"
  have h7: "heap s7 (next_addr s) = Some r7" by (simp add: s7_def)
  show ?thesis
  proof (cases "ignore_vcs_dirs e r7")
    case (Inl errmsg)
    have "w_root_new e path s =
        rbind (w_root_delref_raw (next_addr s) s7) (\<lambda>s8. Ok (Inl errmsg, s8))"
      unfolding unfold ign using Inl by (simp add: s7_def)
    then show ?thesis
      unfolding w_root_delref_raw_last [OF h7 f7(2)]
      by (simp add: s7_def)
  next
    case (Inr dirs)
    define r8 where "r8 = r7\<lparr>ignore := ignore r7 @ map (\<lambda>d. (d, True)) dirs\<rparr>"
    define s8 where "s8 = put_root (next_addr s) r8 s7"
    have h8: "heap s8 (next_addr s) = Some r8" by (simp add: s8_def put_root_def)
    have f8: "root_path r8 = path" "refcnt r8 = 1" "triggers r8 = []" "\<not> cancelled r8"
      using f7 by (simp_all add: r8_def)
    have new: "w_root_new e path s = rbind (w_root_init e (next_addr s) s8) (\<lambda>(res, s9).
                        case res of
                          Inl errmsg \<Rightarrow>
                            rbind (w_root_delref_raw (next_addr s) s9)
                              (\<lambda>s10. Ok (Inl errmsg, s10))
                        | Inr u \<Rightarrow> Ok (Inr (next_addr s), s9))"
      unfolding unfold ign using Inr by (simp add: s7_def r8_def s8_def)
    from w_root_init_cases [OF h8, of e] show ?thesis
    proof (elim disjE exE conjE)
      fix msg assume "w_root_init e (next_addr s) s8 = Ok (Inl msg, s8)"
      then have "w_root_new e path s =
          rbind (w_root_delref_raw (next_addr s) s8) (\<lambda>s10. Ok (Inl msg, s10))"
        unfolding new by simp
      then show ?thesis
        unfolding w_root_delref_raw_last [OF h8 f8(2)]
        by (simp add: s8_def s7_def put_root_def)
    next
      fix u s' r'
      assume i: "w_root_init e (next_addr s) s8 = Ok (Inr u, s')"
        and f: "watched_roots s' = watched_roots s8" "next_addr s' = next_addr s8"
          "\<forall>q. q \<noteq> next_addr s \<longrightarrow> heap s' q = heap s8 q"
          "heap s' (next_addr s) = Some r'" "root_path r' = root_path r8"
          "refcnt r' = refcnt r8" "triggers r' = triggers r8" "cancelled r' = cancelled r8"
      have "w_root_new e path s = Ok (Inr (next_addr s), s')"
        unfolding new i by simp
      with f f8 show ?thesis
        by (simp add: s8_def s7_def put_root_def)
    qed
  qed
qed

lemma registry_okI:
  assumes "\<And>k p. (k, p) \<in> set (watched_roots s) \<Longrightarrow>
      \<exists>r. heap s p = Some r \<and> root_path r = k \<and> 0 < refcnt r"
  shows "registry_ok s"
  unfolding registry_ok_def list_all_iff
proof (intro ballI)
  fix x assume x: "x \<in> set (watched_roots s)"
  obtain k p where kp: "x = (k, p)" by (cases x)
  from assms [of k p] x kp obtain r
    where "heap s p = Some r" "root_path r = k" "0 < refcnt r" by auto
  with kp show "case x of (root_name, rt) \<Rightarrow>
      (case heap s rt of None \<Rightarrow> False | Some r \<Rightarrow> root_path r = root_name \<and> 0 < refcnt r)"
    by simp
qed

lemma root_resolve_returns:
  assumes reg: "registry_ok s" and fresh: "fresh_addrs s" and small: "small_ignore_dirs e"
  shows "\<exists>res s1. root_resolve e filename True s = Ok (res, s1) \<and>
      registry_ok s1 \<and> fresh_addrs s1 \<and>
      (\<forall>rt created. res = Inr (rt, created) \<longrightarrow>
         (\<exists>r1. heap s1 rt = Some r1 \<and> 2 \<le> refcnt r1))"
proof (cases filename)
  case None
  with reg fresh show ?thesis by (simp add: root_resolve_def)
next
  case (Some path)
  show ?thesis
  proof (cases "map_of (watched_roots s) path")
    case found: (Some rt)
    then have mem: "(path, rt) \<in> set (watched_roots s)" by (rule map_of_SomeD)
    from registry_ok_entry [OF reg mem] obtain r
      where h: "heap s rt = Some r" and f: "root_path r = path" "0 < refcnt r"
      by auto
    define s1 where "s1 = put_root rt (r\<lparr>refcnt := refcnt r + 1\<rparr>) s"
    have res: "root_resolve e filename True s = Ok (Inr (rt, False), s1)"
      using Some found by (simp add: root_resolve_def w_root_addref_Ok [OF h] s1_def)
    have reg1: "registry_ok s1"
    proof (rule registry_okI)
      fix k p assume "(k, p) \<in> set (watched_roots s1)"
      then have m: "(k, p) \<in> set (watched_roots s)" by (simp add: s1_def put_root_def)
      from registry_ok_entry [OF reg m] obtain r'
        where "heap s p = Some r'" "root_path r' = k" "0 < refcnt r'" by auto
      with h show "\<exists>r. heap s1 p = Some r \<and> root_path r = k \<and> 0 < refcnt r"
        by (cases "p = rt") (auto simp: s1_def put_root_def)
    qed
    have fresh1: "fresh_addrs s1"
      using fresh h by (auto simp: fresh_addrs_def s1_def put_root_def)
    have "heap s1 rt = Some (r\<lparr>refcnt := refcnt r + 1\<rparr>)" by (simp add: s1_def put_root_def)
    with res reg1 fresh1 f show ?thesis by auto
  next
    case None
    from w_root_new_returns [OF small, of path s] obtain res s1
      where new: "w_root_new e path s = Ok (res, s1)"
        and w: "watched_roots s1 = watched_roots s" and n: "next_addr s1 = Suc (next_addr s)"
        and other: "\<forall>q. q \<noteq> next_addr s \<longrightarrow> heap s1 q = heap s q"
        and out: "case res of
           Inl msg \<Rightarrow> heap s1 (next_addr s) = None
         | Inr rt \<Rightarrow> rt = next_addr s \<and>
             (\<exists>r1. heap s1 rt = Some r1 \<and> root_path r1 = path \<and> refcnt r1 = 1 \<and>
                   triggers r1 = [] \<and> \<not> cancelled r1)"
      by blast
    have old: "\<exists>r. heap s1 p = Some r \<and> root_path r = k \<and> 0 < refcnt r \<and> p \<noteq> next_addr s"
      if "(k, p) \<in> set (watched_roots s)" for k p
    proof -
      from registry_ok_entry [OF reg that] obtain r
        where r: "heap s p = Some r" "root_path r = k" "0 < refcnt r" by auto
      with fresh have "p \<noteq> next_addr s" by (auto simp: fresh_addrs_def)
      with other r show ?thesis by simp
    qed
    show ?thesis
    proof (cases res)
      case (Inl msg)
      have res: "root_resolve e filename True s = Ok (Inl msg, s1)"
        using Some None new Inl by (simp add: root_resolve_def)
      have reg1: "registry_ok s1"
        by (rule registry_okI) (use old w in auto)
      have fresh1: "fresh_addrs s1"
        using fresh other n by (auto simp: fresh_addrs_def)
      from res reg1 fresh1 show ?thesis by auto
    next
      case (Inr rt)
      with out obtain r1 where rt: "rt = next_addr s" and h1: "heap s1 rt = Some r1"
        and f1: "root_path r1 = path" "refcnt r1 = 1"
        by auto
      define s2 where "s2 = put_root rt (r1\<lparr>refcnt := 2\<rparr>)
          (s1\<lparr>watched_roots := watched_roots s @ [(path, rt)]\<rparr>)"
      have "heap (s1\<lparr>watched_roots := watched_roots s1 @ [(path, rt)]\<rparr>) rt = Some r1"
        using h1 by simp
      from w_root_addref_Ok [OF this]
      have res: "root_resolve e filename True s = Ok (Inr (rt, True), s2)"
        using Some None new Inr w f1(2) by (simp add: root_resolve_def s2_def)
      have h2: "heap s2 rt = Some (r1\<lparr>refcnt := 2\<rparr>)" by (simp add: s2_def put_root_def)
      have reg2: "registry_ok s2"
      proof (rule registry_okI)
        fix k p assume "(k, p) \<in> set (watched_roots s2)"
        then consider "(k, p) \<in> set (watched_roots s)" | "k = path" "p = rt"
          by (auto simp: s2_def put_root_def)
        then show "\<exists>r. heap s2 p = Some r \<and> root_path r = k \<and> 0 < refcnt r"
        proof cases
          case 1
          from old [OF this] rt show ?thesis by (auto simp: s2_def put_root_def)
        next
          case 2
          with h2 f1 show ?thesis by simp
        qed
      qed
      have fresh2: "fresh_addrs s2"
        using fresh other n rt by (auto simp: fresh_addrs_def s2_def put_root_def)
      from res reg2 fresh2 h2 show ?thesis by auto
    qed
  qed
qed

lemma load_watched_entry_returns:
  assumes reg: "registry_ok s" and fresh: "fresh_addrs s" and small: "small_ignore_dirs e"
  shows "\<exists>res s1 s'.
      root_resolve e (json_string_value (json_object_get (Some obj) ''path'')) True s =
        Ok (res, s1) \<and>
      (\<forall>rt created. res = Inr (rt, created) \<longrightarrow> (\<exists>r1. heap s1 rt = Some r1 \<and> 2 \<le> refcnt r1)) \<and>
      load_watched_entry e obj s = Ok s' \<and> registry_ok s' \<and> fresh_addrs s'"
proof -
  from root_resolve_returns [OF reg fresh small] obtain res s1
    where res: "root_resolve e (json_string_value (json_object_get (Some obj) ''path'')) True s =
        Ok (res, s1)"
      and reg1: "registry_ok s1" and fresh1: "fresh_addrs s1"
      and live: "\<forall>rt created. res = Inr (rt, created) \<longrightarrow>
         (\<exists>r1. heap s1 rt = Some r1 \<and> 2 \<le> refcnt r1)"
    by blast
  show ?thesis
  proof (cases res)
    case (Inl msg)
    with res have "load_watched_entry e obj s = Ok s1"
      by (simp add: load_watched_entry_def)
    with res reg1 fresh1 live show ?thesis by blast
  next
    case (Inr p)
    obtain rt created where p: "p = (rt, created)" by (cases p)
    from live Inr p obtain r1 where h1: "heap s1 rt = Some r1" and c1: "2 \<le> refcnt r1"
      by auto
    from res Inr p
    have res': "root_resolve e (json_string_value (json_object_get (Some obj) ''path'')) True s =
        Ok (Inr (rt, created), s1)" by simp
    from c1 have ne: "refcnt r1 \<noteq> 1" by simp
    from load_watched_entry_effect [OF res' h1] ne obtain s' r'
      where e: "load_watched_entry e obj s = Ok s'" and w: "watched_roots s' = watched_roots s1"
        and n: "next_addr s' = next_addr s1"
        and other: "\<forall>q. q \<noteq> rt \<longrightarrow> heap s' q = heap s1 q"
        and h': "heap s' rt = Some r'" "root_path r' = root_path r1" "refcnt r' = refcnt r1 - 1"
      by auto
    have reg': "registry_ok s'"
    proof (rule registry_okI)
      fix k q assume "(k, q) \<in> set (watched_roots s')"
      with w have m: "(k, q) \<in> set (watched_roots s1)" by simp
      from registry_ok_entry [OF reg1 m] obtain r
        where r: "heap s1 q = Some r" "root_path r = k" "0 < refcnt r" by auto
      show "\<exists>r. heap s' q = Some r \<and> root_path r = k \<and> 0 < refcnt r"
      proof (cases "q = rt")
        case True
        with r h1 h' c1 show ?thesis by simp
      next
        case False
        with other r show ?thesis by simp
      qed
    qed
    have fresh': "fresh_addrs s'"
      unfolding fresh_addrs_def
    proof (intro allI impI)
      fix q assume q: "next_addr s' \<le> q"
      with n fresh1 have none: "heap s1 q = None" by (simp add: fresh_addrs_def)
      with h1 have "q \<noteq> rt" by auto
      with other none show "heap s' q = None" by simp
    qed
    from res e reg' fresh' live show ?thesis by blast
  qed
qed

lemma load_watched_returns:
  assumes "registry_ok s" and "fresh_addrs s" and small: "small_ignore_dirs e"
  shows "\<exists>s'. load_watched e xs s = Ok s' \<and> registry_ok s' \<and> fresh_addrs s'"
  using assms(1,2)
proof (induction xs arbitrary: s)
  case Nil
  then show ?case by simp
next
  case (Cons x xs)
  from load_watched_entry_returns [OF Cons.prems small, of x] obtain s1
    where e: "load_watched_entry e x s = Ok s1" and inv: "registry_ok s1" "fresh_addrs s1"
    by blast
  from Cons.IH [OF inv] e show ?case by simp
qed

lemma load_triggers_keeps:
  assumes "\<forall>t \<in> set post. \<forall>c.
      json_object_get (Some t) ''rules'' = None \<and> w_build_trigger_from_def e r t = Inr c \<longrightarrow>
      triggername c \<noteq> name"
  shows "map_of (fst (load_triggers e r post (m, tr))) name = map_of m name"
  using assms
proof (induction post arbitrary: m tr)
  case Nil
  show ?case by simp
next
  case (Cons t post)
  from Cons.prems have rest: "\<forall>t \<in> set post. \<forall>c.
      json_object_get (Some t) ''rules'' = None \<and> w_build_trigger_from_def e r t = Inr c \<longrightarrow>
      triggername c \<noteq> name" by simp
  show ?case
  proof (cases "json_object_get (Some t) ''rules'' = None")
    case False
    then show ?thesis using Cons.IH [OF rest] by (simp add: Let_def)
  next
    case True
    show ?thesis
    proof (cases "w_build_trigger_from_def e r t")
      case (Inl msg)
      with True show ?thesis using Cons.IH [OF rest] by (simp add: Let_def)
    next
      case (Inr c)
      with True Cons.prems have "triggername c \<noteq> name" by simp
      with True Inr show ?thesis
        using Cons.IH [OF rest, of "AList.update (triggername c) c m" tr]
        by (simp add: Let_def update_conv')
    qed
  qed
qed

lemma load_triggers_installs:
  assumes "json_object_get (Some tobj) ''rules'' = None"
    and "w_build_trigger_from_def e r tobj = Inr cmd"
    and "\<forall>t \<in> set post. \<forall>c.
      json_object_get (Some t) ''rules'' = None \<and> w_build_trigger_from_def e r t = Inr c \<longrightarrow>
      triggername c \<noteq> triggername cmd"
  shows "map_of (fst (load_triggers e r (pre @ tobj # post) acc)) (triggername cmd) = Some cmd"
proof -
  obtain m tr where p: "load_triggers e r pre acc = (m, tr)"
    by (cases "load_triggers e r pre acc")
  have "load_triggers e r (pre @ tobj # post) acc =
      load_triggers e r post (AList.update (triggername cmd) cmd m, tr)"
    using assms(1,2) by (simp add: load_triggers_append p Let_def)
  with load_triggers_keeps [OF assms(3), of "AList.update (triggername cmd) cmd m" tr]
  show ?thesis by (simp add: update_conv')
qed

lemma empty_state_invariant: "registry_ok empty_state" "fresh_addrs empty_state"
  by (simp_all add: registry_ok_def fresh_addrs_def empty_state_def)

lemma example_env_small: "small_ignore_dirs example_env"
  by (auto simp: small_ignore_dirs_def example_env_def)

text \<open>
  C6. No failure of one entry aborts the load.
  \<^item> A definition without \<open>rules\<close> that fails to build gets one error line, and the
    definitions after it are handled as from the table built before it.
  \<^item> A definition without \<open>rules\<close> that builds is installed, whatever failed before it:
    unless a later definition of the list builds a trigger of the same name, the table has
    its trigger under its name at the end.
  \<^item> An entry whose root cannot be resolved is passed over, and the load goes on with the
    entries after it.
  \<^item> An entry whose root is resolved (or created) returns, and the load goes on with the
    entries after it. The error lines of its definitions are in the trace. The borrowed
    reference is released: the count is one less than after the resolution, and the root is
    deleted if that was its last reference. When the root was created by this resolution
    and fails to start, the failure is logged and the root is cancelled; its triggers are
    installed all the same.
  \<^item> The load returns. Let the registry hold live roots only, each under its own path and
    with its reference counted, let the addresses from \<open>next_addr\<close> on be free, and let no
    config file have more than 255 entries under \<open>ignore_dirs\<close> (with more, the creation
    of a root never returns). Then for every entry of \<open>watched\<close>, whatever the entries
    before it did: the load reaches the entry, in a state of the same kind; its resolution
    returns an error, or a live root that holds the borrowed reference on top of the
    registry's; the entry returns; the entries after it return; and the load returns true.
    The same holds for every \<open>watched\<close> that is an array, the empty one included.
\<close>

theorem load_continues_after_failures:
  "(json_object_get (Some tobj) ''rules'' = None \<and>
      w_build_trigger_from_def e r tobj = Inl errmsg \<longrightarrow>
      load_triggers e r (pre @ tobj # post) acc =
        load_triggers e r post
          (case load_triggers e r pre acc of
             (m, tr) \<Rightarrow>
               (m, tr @ [Log W_LOG_ERR
                           (''loading trigger for '' @ root_path r @ '': '' @ errmsg)]))) \<and>
   (json_object_get (Some tobj) ''rules'' = None \<and>
      w_build_trigger_from_def e r tobj = Inr cmd \<and>
      (\<forall>t \<in> set post. \<forall>c.
         json_object_get (Some t) ''rules'' = None \<and> w_build_trigger_from_def e r t = Inr c \<longrightarrow>
         triggername c \<noteq> triggername cmd) \<longrightarrow>
      map_of (fst (load_triggers e r (pre @ tobj # post) acc)) (triggername cmd) = Some cmd) \<and>
   (root_resolve e (json_string_value (json_object_get (Some obj) ''path'')) True s =
      Ok (Inl msg, s1) \<longrightarrow>
      load_watched e (obj # rest) s = load_watched e rest s1) \<and>
   (root_resolve e (json_string_value (json_object_get (Some obj) ''path'')) True s =
      Ok (Inr (rt, created), s1) \<and> heap s1 rt = Some r1 \<longrightarrow>
      (\<exists>s'. load_watched_entry e obj s = Ok s' \<and>
         load_watched e (obj # rest) s = load_watched e rest s' \<and>
         watched_roots s' = watched_roots s1 \<and>
         set (snd (load_triggers e r1
                     (json_array_elems (json_object_get (Some obj) ''triggers''))
                     (triggers r1, trace s1))) \<subseteq> set (trace s') \<and>
         (\<forall>startmsg. created \<and> root_start_error e (root_path r1) = Some startmsg \<longrightarrow>
            Log W_LOG_ERR (''root_start('' @ root_path r1 @ '') failed: '' @ startmsg)
              \<in> set (trace s')) \<and>
         (if refcnt r1 = 1 then heap s' rt = None
          else \<exists>r'. heap s' rt = Some r' \<and> root_path r' = root_path r1 \<and>
                 refcnt r' = refcnt r1 - 1 \<and>
                 map_of (triggers r') =
                   map_of (fst (load_triggers e r1
                          (json_array_elems (json_object_get (Some obj) ''triggers''))
                          (triggers r1, trace s1))) \<and>
                 cancelled r' =
                   (cancelled r1 \<or> created \<and> root_start_error e (root_path r1) \<noteq> None)))) \<and>
   (registry_ok s \<and> fresh_addrs s \<and> small_ignore_dirs e \<and>
      json_object_get (Some doc) ''watched'' = Some (JArray (es1 @ obj # es2)) \<longrightarrow>
      (\<exists>s1 res s2 s3 s'.
         load_watched e es1 s = Ok s1 \<and> registry_ok s1 \<and> fresh_addrs s1 \<and>
         root_resolve e (json_string_value (json_object_get (Some obj) ''path'')) True s1 =
           Ok (res, s2) \<and>
         (\<forall>rt created. res = Inr (rt, created) \<longrightarrow>
            (\<exists>r1. heap s2 rt = Some r1 \<and> 2 \<le> refcnt r1)) \<and>
         load_watched_entry e obj s1 = Ok s3 \<and> registry_ok s3 \<and> fresh_addrs s3 \<and>
         load_watched e es2 s3 = Ok s' \<and>
         w_root_load_state e doc s = Ok (True, s'))) \<and>
   (registry_ok s \<and> fresh_addrs s \<and> small_ignore_dirs e \<and>
      json_is_array (json_object_get (Some doc) ''watched'') \<longrightarrow>
      (\<exists>s'. w_root_load_state e doc s = Ok (True, s') \<and> registry_ok s' \<and> fresh_addrs s'))"
proof (intro conjI impI)
  assume a: "json_object_get (Some tobj) ''rules'' = None \<and>
      w_build_trigger_from_def e r tobj = Inl errmsg"
  obtain m tr where p: "load_triggers e r pre acc = (m, tr)"
    by (cases "load_triggers e r pre acc")
  from a show "load_triggers e r (pre @ tobj # post) acc =
        load_triggers e r post
          (case load_triggers e r pre acc of
             (m, tr) \<Rightarrow>
               (m, tr @ [Log W_LOG_ERR
                           (''loading trigger for '' @ root_path r @ '': '' @ errmsg)]))"
    by (simp add: load_triggers_append p Let_def)
next
  assume a: "json_object_get (Some tobj) ''rules'' = None \<and>
      w_build_trigger_from_def e r tobj = Inr cmd \<and>
      (\<forall>t \<in> set post. \<forall>c.
         json_object_get (Some t) ''rules'' = None \<and> w_build_trigger_from_def e r t = Inr c \<longrightarrow>
         triggername c \<noteq> triggername cmd)"
  then have 1: "json_object_get (Some tobj) ''rules'' = None"
    and 2: "w_build_trigger_from_def e r tobj = Inr cmd"
    and 3: "\<forall>t \<in> set post. \<forall>c.
         json_object_get (Some t) ''rules'' = None \<and> w_build_trigger_from_def e r t = Inr c \<longrightarrow>
         triggername c \<noteq> triggername cmd"
    by blast+
  from load_triggers_installs [OF 1 2 3]
  show "map_of (fst (load_triggers e r (pre @ tobj # post) acc)) (triggername cmd) = Some cmd" .
next
  assume "root_resolve e (json_string_value (json_object_get (Some obj) ''path'')) True s =
      Ok (Inl msg, s1)"
  then show "load_watched e (obj # rest) s = load_watched e rest s1"
    by (simp add: load_watched_entry_def)
next
  assume a: "root_resolve e (json_string_value (json_object_get (Some obj) ''path'')) True s =
      Ok (Inr (rt, created), s1) \<and> heap s1 rt = Some r1"
  then have res: "root_resolve e (json_string_value (json_object_get (Some obj) ''path'')) True s =
      Ok (Inr (rt, created), s1)" and h: "heap s1 rt = Some r1"
    by simp_all
  from load_watched_entry_effect [OF res h] obtain s'
    where e: "load_watched_entry e obj s = Ok s'" and w: "watched_roots s' = watched_roots s1"
      and t: "set (snd (load_triggers e r1
                     (json_array_elems (json_object_get (Some obj) ''triggers''))
                     (triggers r1, trace s1))) \<subseteq> set (trace s')"
      and l: "\<forall>errmsg. created \<and> root_start_error e (root_path r1) = Some errmsg \<longrightarrow>
         Log W_LOG_ERR (''root_start('' @ root_path r1 @ '') failed: '' @ errmsg) \<in> set (trace s')"
      and f: "if refcnt r1 = 1 then heap s' rt = None \<and> live_roots s' = live_roots s1 - 1
       else live_roots s' = live_roots s1 \<and>
         (\<exists>r'. heap s' rt = Some r' \<and> root_path r' = root_path r1 \<and>
            refcnt r' = refcnt r1 - 1 \<and>
            triggers r' = fst (load_triggers e r1
                (json_array_elems (json_object_get (Some obj) ''triggers''))
                (triggers r1, trace s1)) \<and>
            cancelled r' =
              (cancelled r1 \<or> created \<and> root_start_error e (root_path r1) \<noteq> None))"
    by blast
  have c: "load_watched e (obj # rest) s = load_watched e rest s'"
    by (simp add: e)
  have f': "if refcnt r1 = 1 then heap s' rt = None
          else \<exists>r'. heap s' rt = Some r' \<and> root_path r' = root_path r1 \<and>
                 refcnt r' = refcnt r1 - 1 \<and>
                 map_of (triggers r') =
                   map_of (fst (load_triggers e r1
                          (json_array_elems (json_object_get (Some obj) ''triggers''))
                          (triggers r1, trace s1))) \<and>
                 cancelled r' =
                   (cancelled r1 \<or> created \<and> root_start_error e (root_path r1) \<noteq> None)"
  proof (cases "refcnt r1 = 1")
    case True
    with f show ?thesis by simp
  next
    case False
    with f obtain r' where "heap s' rt = Some r'" "root_path r' = root_path r1"
      "refcnt r' = refcnt r1 - 1"
      "triggers r' = fst (load_triggers e r1
                (json_array_elems (json_object_get (Some obj) ''triggers''))
                (triggers r1, trace s1))"
      "cancelled r' =
              (cancelled r1 \<or> created \<and> root_start_error e (root_path r1) \<noteq> None)"
      by auto
    with False show ?thesis by simp
  qed
  from e c w t l f' show "\<exists>s'. load_watched_entry e obj s = Ok s' \<and>
         load_watched e (obj # rest) s = load_watched e rest s' \<and>
         watched_roots s' = watched_roots s1 \<and>
         set (snd (load_triggers e r1
                     (json_array_elems (json_object_get (Some obj) ''triggers''))
                     (triggers r1, trace s1))) \<subseteq> set (trace s') \<and>
         (\<forall>startmsg. created \<and> root_start_error e (root_path r1) = Some startmsg \<longrightarrow>
            Log W_LOG_ERR (''root_start('' @ root_path r1 @ '') failed: '' @ startmsg)
              \<in> set (trace s')) \<and>
         (if refcnt r1 = 1 then heap s' rt = None
          else \<exists>r'. heap s' rt = Some r' \<and> root_path r' = root_path r1 \<and>
                 refcnt r' = refcnt r1 - 1 \<and>
                 map_of (triggers r') =
                   map_of (fst (load_triggers e r1
                          (json_array_elems (json_object_get (Some obj) ''triggers''))
                          (triggers r1, trace s1))) \<and>
                 cancelled r' =
                   (cancelled r1 \<or> created \<and> root_start_error e (root_path r1) \<noteq> None))"
    by (intro exI [of _ s'] conjI) assumption+
next
  assume a: "registry_ok s \<and> fresh_addrs s \<and> small_ignore_dirs e \<and>
      json_object_get (Some doc) ''watched'' = Some (JArray (es1 @ obj # es2))"
  then have reg: "registry_ok s" and fresh: "fresh_addrs s" and small: "small_ignore_dirs e"
    and w: "json_object_get (Some doc) ''watched'' = Some (JArray (es1 @ obj # es2))"
    by simp_all
  from load_watched_returns [OF reg fresh small, of es1] obtain s1
    where l1: "load_watched e es1 s = Ok s1" and inv1: "registry_ok s1" "fresh_addrs s1"
    by blast
  from load_watched_entry_returns [OF inv1 small, of obj] obtain res s2 s3
    where res: "root_resolve e (json_string_value (json_object_get (Some obj) ''path'')) True s1 =
        Ok (res, s2)"
      and live: "\<forall>rt created. res = Inr (rt, created) \<longrightarrow>
          (\<exists>r1. heap s2 rt = Some r1 \<and> 2 \<le> refcnt r1)"
      and l3: "load_watched_entry e obj s1 = Ok s3" and inv3: "registry_ok s3" "fresh_addrs s3"
    by blast
  from load_watched_returns [OF inv3 small, of es2] obtain s'
    where l': "load_watched e es2 s3 = Ok s'"
    by blast
  have "load_watched e (es1 @ obj # es2) s = Ok s'"
    by (simp add: load_watched_append l1 l3 l')
  with w have whole: "w_root_load_state e doc s = Ok (True, s')"
    by (simp add: w_root_load_state_def)
  from l1 inv1 res live l3 inv3 l' whole
  show "\<exists>s1 res s2 s3 s'.
         load_watched e es1 s = Ok s1 \<and> registry_ok s1 \<and> fresh_addrs s1 \<and>
         root_resolve e (json_string_value (json_object_get (Some obj) ''path'')) True s1 =
           Ok (res, s2) \<and>
         (\<forall>rt created. res = Inr (rt, created) \<longrightarrow>
            (\<exists>r1. heap s2 rt = Some r1 \<and> 2 \<le> refcnt r1)) \<and>
         load_watched_entry e obj s1 = Ok s3 \<and> registry_ok s3 \<and> fresh_addrs s3 \<and>
         load_watched e es2 s3 = Ok s' \<and>
         w_root_load_state e doc s = Ok (True, s')"
    by (intro exI [of _ s1] exI [of _ res] exI [of _ s2] exI [of _ s3] exI [of _ s'] conjI)
      assumption+
next
  assume a: "registry_ok s \<and> fresh_addrs s \<and> small_ignore_dirs e \<and>
      json_is_array (json_object_get (Some doc) ''watched'')"
  then have reg: "registry_ok s" and fresh: "fresh_addrs s" and small: "small_ignore_dirs e"
    and arr: "json_is_array (json_object_get (Some doc) ''watched'')"
    by simp_all
  from load_watched_returns [OF reg fresh small,
      of "json_array_elems (json_object_get (Some doc) ''watched'')"]
  obtain s' where "load_watched e (json_array_elems (json_object_get (Some doc) ''watched'')) s =
      Ok s'" and inv: "registry_ok s'" "fresh_addrs s'"
    by blast
  with arr have "w_root_load_state e doc s = Ok (True, s')"
    by (cases "json_object_get (Some doc) ''watched''") (simp_all add: w_root_load_state_def)
  with inv show "\<exists>s'. w_root_load_state e doc s = Ok (True, s') \<and> registry_ok s' \<and>
      fresh_addrs s'"
    by blast
qed

theorem load_continues_after_failures_witness:
  "load_triggers example_env (example_root ''/r'') [nameless_def_ex, trigger_def_ex] ([], []) =
     ([(''t'', example_trigger)],
      [Log W_LOG_ERR ''loading trigger for /r: invalid or missing name'']) \<and>
   map_of (fst (load_triggers example_env (example_root ''/r'')
                  [nameless_def_ex, trigger_def_ex] ([], []))) ''t'' = Some example_trigger \<and>
   (\<exists>s' r'. load_watched_entry example_env
        (watched_entry ''/bad'' [nameless_def_ex, trigger_def_ex]) empty_state = Ok s' \<and>
      heap s' 0 = Some r' \<and> cancelled r' \<and> refcnt r' = 1 \<and>
      map_of (triggers r') ''t'' = Some example_trigger \<and>
      Log W_LOG_ERR ''loading trigger for /bad: invalid or missing name'' \<in> set (trace s') \<and>
      Log W_LOG_ERR ''root_start(/bad) failed: no watcher'' \<in> set (trace s')) \<and>
   (\<exists>s''. w_root_load_state example_env
        (JObject [(''watched'',
           JArray [JObject [(''triggers'', JArray [trigger_def_ex])],
                   watched_entry ''/bad'' [nameless_def_ex, trigger_def_ex],
                   watched_entry ''/r'' [trigger_def_ex]])])
        empty_state = Ok (True, s'') \<and>
      registry_ok s'' \<and> set (map fst (watched_roots s'')) = {''/bad'', ''/r''})"
proof -
  let ?nopath = "JObject [(''triggers'', JArray [trigger_def_ex])]"
  let ?bad = "watched_entry ''/bad'' [nameless_def_ex, trigger_def_ex]"
  let ?good = "watched_entry ''/r'' [trigger_def_ex]"
  let ?doc = "JObject [(''watched'', JArray [?nopath, ?bad, ?good])]"
  have part1: "load_triggers example_env (example_root ''/r'')
      [nameless_def_ex, trigger_def_ex] ([], []) =
     ([(''t'', example_trigger)],
      [Log W_LOG_ERR ''loading trigger for /r: invalid or missing name''])"
    using load_continues_after_failures [THEN conjunct1, of nameless_def_ex example_env
        "example_root ''/r''" "''invalid or missing name''" "[]" "[trigger_def_ex]" "([], [])"]
    by (simp add: example_build_nameless example_build_def example_root_def example_trigger_def
        nameless_no_rules trigger_def_ex_no_rules)
  have part2: "map_of (fst (load_triggers example_env (example_root ''/r'')
                  [nameless_def_ex, trigger_def_ex] ([], []))) ''t'' = Some example_trigger"
    using load_continues_after_failures [
        where tobj = trigger_def_ex and e = example_env and r = "example_root ''/r''"
          and cmd = example_trigger and post = "[]" and pre = "[nameless_def_ex]"
          and acc = "([], [])", THEN conjunct2, THEN conjunct1]
    by (simp add: example_build_def trigger_def_ex_no_rules example_trigger_name)
  have empty: "map_of (watched_roots empty_state) ''/bad'' = None"
    "watched_roots empty_state = []" and n: "next_addr empty_state = 0"
    by (simp_all add: empty_state_def)
  have nopath: "root_resolve example_env
      (json_string_value (json_object_get (Some ?nopath) ''path'')) True empty_state =
      Ok (Inl ''no path to resolve'', empty_state)"
    by (simp add: root_resolve_def)
  have skip: "load_watched example_env (?nopath # rest) empty_state =
      load_watched example_env rest empty_state" for rest
    using load_continues_after_failures [THEN conjunct2, THEN conjunct2, THEN conjunct1,
        rule_format, OF nopath] .
  from example_env_creates [of "''/bad''" empty_state] obtain s1
    where new: "w_root_new example_env ''/bad'' empty_state = Ok (Inr 0, s1)"
    by (auto simp: n example_cfgfilenames)
  from root_resolve_created [OF empty(1) new] obtain r1
    where f1: "root_path r1 = ''/bad''" "triggers r1 = []" "\<not> cancelled r1"
      and res: "root_resolve example_env (Some ''/bad'') True empty_state =
             Ok (Inr (0, True),
                 put_root 0 (r1\<lparr>refcnt := 2\<rparr>)
                   (s1\<lparr>watched_roots := watched_roots empty_state @ [(''/bad'', 0)]\<rparr>))"
    by blast
  define s1' where "s1' = put_root 0 (r1\<lparr>refcnt := 2\<rparr>)
                   (s1\<lparr>watched_roots := watched_roots empty_state @ [(''/bad'', 0)]\<rparr>)"
  have hyp: "root_resolve example_env (json_string_value (json_object_get (Some ?bad) ''path''))
        True empty_state = Ok (Inr (0, True), s1') \<and> heap s1' 0 = Some (r1\<lparr>refcnt := 2\<rparr>)"
    using res by (simp add: s1'_def watched_entry_get)
  have start: "root_start_error example_env ''/bad'' = Some ''no watcher''"
    by (simp add: example_env_def)
  have loaded: "load_triggers example_env (r1\<lparr>refcnt := 2\<rparr>)
      (json_array_elems (json_object_get (Some ?bad) ''triggers''))
      (triggers (r1\<lparr>refcnt := 2\<rparr>), trace s1') =
      ([(''t'', example_trigger)],
       trace s1' @ [Log W_LOG_ERR ''loading trigger for /bad: invalid or missing name''])"
    by (simp add: watched_entry_get f1 example_build_nameless example_build_def
        nameless_no_rules trigger_def_ex_no_rules example_trigger_name)
  from load_continues_after_failures [THEN conjunct2, THEN conjunct2, THEN conjunct2,
      THEN conjunct1, rule_format, OF hyp, of "[?good]"]
  obtain s' r' where bad: "load_watched_entry example_env ?bad empty_state = Ok s'"
    and cont: "load_watched example_env [?bad, ?good] empty_state =
        load_watched example_env [?good] s'"
    and w': "watched_roots s' = [(''/bad'', 0)]"
    and tlog: "Log W_LOG_ERR ''loading trigger for /bad: invalid or missing name''
        \<in> set (trace s')"
    and log: "Log W_LOG_ERR ''root_start(/bad) failed: no watcher'' \<in> set (trace s')"
    and h': "heap s' 0 = Some r'" "cancelled r'" "refcnt r' = 1"
      "map_of (triggers r') = map_of [(''t'', example_trigger)]"
    unfolding loaded
    by (auto simp: f1 start s1'_def empty put_root_def)
  from h'(4) have trig: "map_of (triggers r') ''t'' = Some example_trigger" by simp
  have none: "map_of (watched_roots s') ''/r'' = None" by (simp add: w')
  from example_env_creates [of "''/r''" s'] obtain s2
    where new2: "w_root_new example_env ''/r'' s' = Ok (Inr (next_addr s'), s2)"
    by (auto simp: example_cfgfilenames)
  from load_single_trigger_entry [OF none new2 example_parse, of ?good]
  obtain s'' where good: "load_watched_entry example_env ?good s' = Ok s''"
    and w'': "watched_roots s'' = watched_roots s' @ [(''/r'', next_addr s')]"
    by (auto simp: watched_entry_get)
  have run: "load_watched example_env [?nopath, ?bad, ?good] empty_state = Ok s''"
    using skip [of "[?bad, ?good]"] cont good by simp
  have inv: "registry_ok empty_state \<and> fresh_addrs empty_state \<and> small_ignore_dirs example_env \<and>
      json_object_get (Some ?doc) ''watched'' = Some (JArray ([?nopath] @ ?bad # [?good]))"
    by (simp add: empty_state_invariant example_env_small)
  from load_continues_after_failures [THEN conjunct2, THEN conjunct2, THEN conjunct2,
      THEN conjunct2, THEN conjunct1, rule_format, OF inv]
  obtain sF where whole: "w_root_load_state example_env ?doc empty_state = Ok (True, sF)"
    by auto
  with run have sF: "sF = s''" by (simp add: w_root_load_state_watched)
  have inv2: "registry_ok empty_state \<and> fresh_addrs empty_state \<and> small_ignore_dirs example_env \<and>
      json_is_array (json_object_get (Some ?doc) ''watched'')"
    by (simp add: empty_state_invariant example_env_small)
  from load_continues_after_failures [THEN conjunct2, THEN conjunct2, THEN conjunct2,
      THEN conjunct2, THEN conjunct2, rule_format, OF inv2]
  obtain sG where "w_root_load_state example_env ?doc empty_state = Ok (True, sG)"
    and "registry_ok sG"
    by auto
  with whole sF have reg'': "registry_ok s''" by simp
  have names: "set (map fst (watched_roots s'')) = {''/bad'', ''/r''}"
    by (simp add: w'' w' insert_commute)
  have part4: "\<exists>s''. w_root_load_state example_env ?doc empty_state = Ok (True, s'') \<and>
      registry_ok s'' \<and> set (map fst (watched_roots s'')) = {''/bad'', ''/r''}"
    using whole sF reg'' names by (intro exI [of _ s'']) simp
  have "load_watched_entry example_env ?bad empty_state = Ok s' \<and>
      heap s' 0 = Some r' \<and> cancelled r' \<and> refcnt r' = 1 \<and>
      map_of (triggers r') ''t'' = Some example_trigger \<and>
      Log W_LOG_ERR ''loading trigger for /bad: invalid or missing name'' \<in> set (trace s') \<and>
      Log W_LOG_ERR ''root_start(/bad) failed: no watcher'' \<in> set (trace s')"
    using bad h'(1,2,3) trig tlog log by (intro conjI) assumption+
  then have part3: "\<exists>s' r'. load_watched_entry example_env ?bad empty_state = Ok s' \<and>
      heap s' 0 = Some r' \<and> cancelled r' \<and> refcnt r' = 1 \<and>
      map_of (triggers r') ''t'' = Some example_trigger \<and>
      Log W_LOG_ERR ''loading trigger for /bad: invalid or missing name'' \<in> set (trace s') \<and>
      Log W_LOG_ERR ''root_start(/bad) failed: no watcher'' \<in> set (trace s')"
    by (intro exI)
  from part1 part2 part3 part4 show ?thesis by (intro conjI)
qed

section \<open>Waiting for the roots at shutdown\<close>

lemma sleeps_append [simp]: "sleeps (xs @ ys) = sleeps xs @ sleeps ys"
  by (induction xs rule: sleeps.induct) simp_all

lemma backoff_next: "min (backoff d * 2) 1000000 = backoff (Suc d)"
  by (simp add: backoff_def min_def)

lemma poll_live_roots_exit:
  assumes "poll_exits pe started k"
  shows "poll_live_roots pe started k last_live interval tr =
     Some (tr @ (if live_roots_load pe k = 0 then []
                 else [LogNum W_LOG_ERR ''%ld roots were still live at exit''
                         (live_roots_load pe k)]))"
  using assms
  by (subst poll_live_roots.simps) (auto simp: poll_exits_def Let_def)

lemma poll_live_roots_step:
  assumes "\<not> poll_exits pe started k"
  shows "poll_live_roots pe started k last_live interval tr =
     poll_live_roots pe started (Suc k)
       (if live_roots_load pe k \<noteq> last_live then to_int32 (live_roots_load pe k) else last_live)
       (min (interval * 2) 1000000)
       ((if live_roots_load pe k \<noteq> last_live
         then tr @ [LogNum W_LOG_DBG ''waiting: %ld live'' (live_roots_load pe k)] else tr) @
        [Usleep interval])"
  using assms
  by (subst poll_live_roots.simps) (simp add: poll_exits_def Let_def)

lemma poll_live_roots_runs:
  assumes "poll_exits pe started (k + m)"
  shows "\<exists>n tr'. n \<le> m \<and> poll_exits pe started (k + n) \<and>
      (\<forall>j < n. \<not> poll_exits pe started (k + j)) \<and>
      poll_live_roots pe started k last_live (backoff d) tr = Some tr' \<and>
      sleeps tr' = sleeps tr @ map backoff [d..<d + n] \<and>
      filter is_error tr' = filter is_error tr @
        (if live_roots_load pe (k + n) = 0 then []
         else [LogNum W_LOG_ERR ''%ld roots were still live at exit''
                 (live_roots_load pe (k + n))])"
  using assms
proof (induction m arbitrary: k d last_live tr)
  case 0
  then have "poll_exits pe started k" by simp
  from poll_live_roots_exit [OF this, of last_live "backoff d" tr] 0 show ?case
    by (intro exI [of _ 0]) simp
next
  case (Suc m)
  show ?case
  proof (cases "poll_exits pe started k")
    case True
    from poll_live_roots_exit [OF this, of last_live "backoff d" tr] True show ?thesis
      by (intro exI [of _ 0]) simp
  next
    case False
    define last' where "last' =
      (if live_roots_load pe k \<noteq> last_live then to_int32 (live_roots_load pe k) else last_live)"
    define tr1 where "tr1 =
      (if live_roots_load pe k \<noteq> last_live
       then tr @ [LogNum W_LOG_DBG ''waiting: %ld live'' (live_roots_load pe k)] else tr) @
      [Usleep (backoff d)]"
    have step: "poll_live_roots pe started k last_live (backoff d) tr =
        poll_live_roots pe started (Suc k) last' (backoff (Suc d)) tr1"
      using poll_live_roots_step [OF False, of last_live "backoff d" tr]
      by (simp add: last'_def tr1_def backoff_next)
    from Suc.prems have "poll_exits pe started (Suc k + m)" by simp
    from Suc.IH [OF this, of last' "Suc d" tr1] obtain n tr'
      where n: "n \<le> m" and ex: "poll_exits pe started (Suc k + n)"
        and before: "\<forall>j < n. \<not> poll_exits pe started (Suc k + j)"
        and run: "poll_live_roots pe started (Suc k) last' (backoff (Suc d)) tr1 = Some tr'"
        and sl: "sleeps tr' = sleeps tr1 @ map backoff [Suc d..<Suc d + n]"
        and er: "filter is_error tr' = filter is_error tr1 @
          (if live_roots_load pe (Suc k + n) = 0 then []
           else [LogNum W_LOG_ERR ''%ld roots were still live at exit''
                   (live_roots_load pe (Suc k + n))])"
      by blast
    have before': "\<forall>j < Suc n. \<not> poll_exits pe started (k + j)"
    proof (intro allI impI)
      fix j assume "j < Suc n"
      then show "\<not> poll_exits pe started (k + j)"
        using False before [rule_format, of "j - 1"] by (cases j) simp_all
    qed
    have sl1: "sleeps tr1 = sleeps tr @ [backoff d]" by (simp add: tr1_def)
    have er1: "filter is_error tr1 = filter is_error tr" by (simp add: tr1_def)
    have "[d..<d + Suc n] = d # [Suc d..<Suc d + n]"
      by (simp add: upt_conv_Cons)
    with n ex before' run sl er step sl1 er1 show ?thesis
      by (intro exI [of _ "Suc n"] exI [of _ tr']) simp
  qed
qed

lemma sum_backoff_17: "(\<Sum>j<17. backoff j) = 4638300"
  by (simp add: backoff_def eval_nat_numeral)

lemma sleeping_clock_deadline:
  assumes "sleeping_clock pe"
  shows "time_call pe 0 + 3 < time_call pe (Suc 17)"
proof -
  from assms have "time_call pe 0 + (\<Sum>j<17. backoff j) div 1000000 \<le> time_call pe (Suc 17)"
    unfolding sleeping_clock_def by blast
  then show ?thesis
    by (simp add: sum_backoff_17)
qed

lemma cancel_watched_Ok:
  assumes "list_all (\<lambda>(k, rt). heap s rt \<noteq> None) xs"
  shows "\<exists>s'. cancel_watched xs s = Ok s'"
  using assms
proof (induction xs arbitrary: s)
  case Nil
  show ?case by simp
next
  case (Cons x xs)
  obtain k rt where x: "x = (k, rt)" by (cases x)
  from Cons.prems x obtain r where h: "heap s rt = Some r" by auto
  from w_root_cancel_effect [OF h] obtain won s1 r1
    where c: "w_root_cancel rt s = Ok (won, s1)" and h1: "heap s1 rt = Some r1"
      and other: "\<forall>q. q \<noteq> rt \<longrightarrow> heap s1 q = heap s q"
    by blast
  define s2 where "s2 = (if \<not> won then emit (SignalRootThreads rt) s1 else s1)"
  have heap2: "heap s2 = heap s1" by (simp add: s2_def emit_def)
  have "list_all (\<lambda>(k, rt). heap s2 rt \<noteq> None) xs"
    unfolding list_all_iff
  proof (intro ballI)
    fix y assume y: "y \<in> set xs"
    obtain k' q where yq: "y = (k', q)" by (cases y)
    from Cons.prems y yq have "heap s q \<noteq> None" by (auto simp: list_all_iff)
    with h1 other have "heap s1 q \<noteq> None" by (cases "q = rt") auto
    with yq heap2 show "case y of (k, rt) \<Rightarrow> heap s2 rt \<noteq> None" by simp
  qed
  from Cons.IH [OF this] obtain s' where "cancel_watched xs s2 = Ok s'" ..
  with c x show ?case by (simp add: s2_def)
qed

lemma w_root_cancel_quiet:
  assumes "w_root_cancel rt s = Ok (won, s')"
  shows "sleeps (trace s') = sleeps (trace s) \<and>
         filter is_error (trace s') = filter is_error (trace s)"
proof (cases "heap s rt")
  case None
  with assms show ?thesis by (simp add: w_root_cancel_def)
next
  case (Some r)
  with assms show ?thesis
    by (auto simp: w_root_cancel_def split_beta w_root_teardown_trace split: if_splits)
qed

lemma cancel_watched_quiet:
  assumes "cancel_watched xs s = Ok s'"
  shows "sleeps (trace s') = sleeps (trace s) \<and>
         filter is_error (trace s') = filter is_error (trace s)"
  using assms
proof (induction xs arbitrary: s)
  case Nil
  then show ?case by simp
next
  case (Cons x xs)
  obtain k rt where x: "x = (k, rt)" by (cases x)
  from Cons.prems x obtain won s1
    where c: "w_root_cancel rt s = Ok (won, s1)"
      and rest: "cancel_watched xs (if \<not> won then emit (SignalRootThreads rt) s1 else s1) = Ok s'"
    by (auto simp: rbind_Ok_iff)
  from Cons.IH [OF rest] w_root_cancel_quiet [OF c] show ?case
    by (simp add: emit_def split: if_splits)
qed

lemma registry_ok_alive:
  assumes "registry_ok s"
  shows "list_all (\<lambda>(k, rt). heap s rt \<noteq> None) (watched_roots s)"
  using assms by (auto simp: registry_ok_def list_all_iff split: option.splits)

lemma stuck_clock: "sleeping_clock stuck_poll_env"
  by (simp add: sleeping_clock_def stuck_poll_env_def)

lemma backoff_nonneg: "0 \<le> backoff j"
  by (simp add: backoff_def)

lemma sum_backoff_16: "(\<Sum>j<16. backoff j) = 3638300"
  by (simp add: backoff_def eval_nat_numeral)

lemma stuck_exit_round:
  assumes "n \<le> 17" and "poll_exits stuck_poll_env 1000 (Suc n)"
  shows "n = 17"
proof (rule ccontr)
  assume "n \<noteq> 17"
  with assms(1) have "n \<le> 16" by simp
  then have "(\<Sum>j<n. backoff j) \<le> (\<Sum>j<16. backoff j)"
    by (intro sum_mono2) (auto simp: backoff_nonneg)
  then have "(\<Sum>j<n. backoff j) div 1000000 \<le> 3"
    by (simp add: sum_backoff_16)
  with assms(2) show False
    by (simp add: poll_exits_def stuck_poll_env_def)
qed

lemma free_watched_roots_runs:
  assumes reg: "registry_ok s"
    and deadline: "time_call pe 0 + 3 < time_call pe (Suc m)"
  shows "\<exists>n s1 s'. n \<le> m \<and>
           cancel_watched (watched_roots s) (emit ReapChildren s) = Ok s1 \<and>
           w_root_free_watched_roots pe s = Ok s' \<and>
           s' = s1\<lparr>trace := trace s'\<rparr> \<and>
           sleeps (trace s') = sleeps (trace s) @ map backoff [0..<n] \<and>
           poll_exits pe (time_call pe 0) (Suc n) \<and>
           (\<forall>j < n. \<not> poll_exits pe (time_call pe 0) (Suc j)) \<and>
           filter is_error (trace s') = filter is_error (trace s) @
             (if live_roots_load pe (Suc n) = 0 then []
              else [LogNum W_LOG_ERR ''%ld roots were still live at exit''
                      (live_roots_load pe (Suc n))]) \<and>
           last (trace s') = Log W_LOG_DBG ''all roots are gone''"
proof -
  have "list_all (\<lambda>(k, rt). heap (emit ReapChildren s) rt \<noteq> None) (watched_roots s)"
    using registry_ok_alive [OF reg] by (simp add: emit_def)
  from cancel_watched_Ok [OF this] obtain s1
    where c: "cancel_watched (watched_roots s) (emit ReapChildren s) = Ok s1" ..
  from cancel_watched_quiet [OF c]
  have q: "sleeps (trace s1) = sleeps (trace s)"
    "filter is_error (trace s1) = filter is_error (trace s)"
    by (simp_all add: emit_def)
  define tr1 where "tr1 = trace s1 @
      [LogNum W_LOG_DBG ''waiting for roots to cancel and go away %d''
         (to_int32 (live_roots_load pe 0))]"
  have q1: "sleeps tr1 = sleeps (trace s)" "filter is_error tr1 = filter is_error (trace s)"
    using q by (simp_all add: tr1_def)
  have b0: "backoff 0 = 100" by (simp add: backoff_def)
  from deadline have "poll_exits pe (time_call pe 0) (1 + m)"
    by (simp add: poll_exits_def)
  from poll_live_roots_runs [OF this, of "to_int32 (live_roots_load pe 0)" 0 tr1]
  obtain n tr' where n: "n \<le> m"
    and ex: "poll_exits pe (time_call pe 0) (Suc n)"
    and before: "\<forall>j < n. \<not> poll_exits pe (time_call pe 0) (Suc j)"
    and run: "poll_live_roots pe (time_call pe 0) 1 (to_int32 (live_roots_load pe 0)) 100 tr1 =
        Some tr'"
    and sl: "sleeps tr' = sleeps (trace s) @ map backoff [0..<n]"
    and er: "filter is_error tr' = filter is_error (trace s) @
        (if live_roots_load pe (Suc n) = 0 then []
         else [LogNum W_LOG_ERR ''%ld roots were still live at exit''
                 (live_roots_load pe (Suc n))])"
    by (auto simp: b0 q1)
  define s' where "s' = s1\<lparr>trace := tr' @ [Log W_LOG_DBG ''all roots are gone'']\<rparr>"
  have whole: "w_root_free_watched_roots pe s = Ok s'"
    using c run by (simp add: w_root_free_watched_roots_def Let_def tr1_def s'_def)
  have tr: "trace s' = tr' @ [Log W_LOG_DBG ''all roots are gone'']"
    by (simp add: s'_def)
  have "n \<le> m \<and>
           cancel_watched (watched_roots s) (emit ReapChildren s) = Ok s1 \<and>
           w_root_free_watched_roots pe s = Ok s' \<and>
           s' = s1\<lparr>trace := trace s'\<rparr> \<and>
           sleeps (trace s') = sleeps (trace s) @ map backoff [0..<n] \<and>
           poll_exits pe (time_call pe 0) (Suc n) \<and>
           (\<forall>j < n. \<not> poll_exits pe (time_call pe 0) (Suc j)) \<and>
           filter is_error (trace s') = filter is_error (trace s) @
             (if live_roots_load pe (Suc n) = 0 then []
              else [LogNum W_LOG_ERR ''%ld roots were still live at exit''
                      (live_roots_load pe (Suc n))]) \<and>
           last (trace s') = Log W_LOG_DBG ''all roots are gone''"
    using n c whole ex before sl er
    by (simp add: tr) (simp add: s'_def)
  then show ?thesis by blast
qed

text \<open>
  C7. Let every registered root be alive, and let the clock not run behind the sleeps, or
  let it read more than three seconds after the start in round \<open>m + 1\<close> of the poll. Then
  \<open>w_root_free_watched_roots\<close> returns, whatever \<open>live_roots\<close> reads, also when it never
  reads zero. It has run the cancellation of the registered roots and then slept \<open>n\<close>
  times, and its trace has no other sleeps than these: those of the backoff, in order, 100
  microseconds, doubled each time, capped at one second. It leaves the loop in the first
  round in which \<open>live_roots\<close> reads zero or the clock reads more than three seconds after
  the start, and in no round before. When it leaves with roots still live, it logs their
  number as an error, and it logs no other error; its last line is that all roots are
  gone. With a clock that does not run behind the sleeps there are at most 17 sleeps, which
  add up to 4.6383 seconds; with a clock past the three seconds in round \<open>m + 1\<close> there are
  at most \<open>m\<close>.
\<close>

theorem shutdown_poll_terminates:
  assumes reg: "registry_ok s"
    and clock: "sleeping_clock pe \<or> time_call pe 0 + 3 < time_call pe (Suc m)"
  shows "\<exists>n s1 s'. (sleeping_clock pe \<longrightarrow> n \<le> 17) \<and>
           (time_call pe 0 + 3 < time_call pe (Suc m) \<longrightarrow> n \<le> m) \<and>
           cancel_watched (watched_roots s) (emit ReapChildren s) = Ok s1 \<and>
           w_root_free_watched_roots pe s = Ok s' \<and>
           s' = s1\<lparr>trace := trace s'\<rparr> \<and>
           sleeps (trace s') = sleeps (trace s) @ map backoff [0..<n] \<and>
           poll_exits pe (time_call pe 0) (Suc n) \<and>
           (\<forall>j < n. \<not> poll_exits pe (time_call pe 0) (Suc j)) \<and>
           filter is_error (trace s') = filter is_error (trace s) @
             (if live_roots_load pe (Suc n) = 0 then []
              else [LogNum W_LOG_ERR ''%ld roots were still live at exit''
                      (live_roots_load pe (Suc n))]) \<and>
           last (trace s') = Log W_LOG_DBG ''all roots are gone''"
proof -
  from clock obtain m' where "time_call pe 0 + 3 < time_call pe (Suc m')"
    using sleeping_clock_deadline by blast
  from free_watched_roots_runs [OF reg this] obtain n s1 s'
    where c: "cancel_watched (watched_roots s) (emit ReapChildren s) = Ok s1"
      and whole: "w_root_free_watched_roots pe s = Ok s'"
      and st: "s' = s1\<lparr>trace := trace s'\<rparr>"
      and sl: "sleeps (trace s') = sleeps (trace s) @ map backoff [0..<n]"
      and ex: "poll_exits pe (time_call pe 0) (Suc n)"
      and before: "\<forall>j < n. \<not> poll_exits pe (time_call pe 0) (Suc j)"
      and er: "filter is_error (trace s') = filter is_error (trace s) @
             (if live_roots_load pe (Suc n) = 0 then []
              else [LogNum W_LOG_ERR ''%ld roots were still live at exit''
                      (live_roots_load pe (Suc n))])"
      and la: "last (trace s') = Log W_LOG_DBG ''all roots are gone''"
    by blast
  have first: "n \<le> k" if "time_call pe 0 + 3 < time_call pe (Suc k)" for k
  proof (rule ccontr)
    assume "\<not> n \<le> k"
    then have "k < n" by simp
    with before have "\<not> poll_exits pe (time_call pe 0) (Suc k)" by blast
    with that show False by (simp add: poll_exits_def)
  qed
  have b17: "sleeping_clock pe \<longrightarrow> n \<le> 17"
    using first [of 17] sleeping_clock_deadline [of pe] by blast
  have bm: "time_call pe 0 + 3 < time_call pe (Suc m) \<longrightarrow> n \<le> m"
    using first [of m] by blast
  from b17 bm c whole st sl ex before er la show ?thesis
    by (intro exI [of _ n] exI [of _ s1] exI [of _ s'] conjI) assumption+
qed

theorem shutdown_poll_terminates_witness:
  "\<exists>s'. w_root_free_watched_roots stuck_poll_env example_state = Ok s' \<and>
      sleeps (trace s') = map backoff [0..<17] \<and>
      filter is_error (trace s') = [LogNum W_LOG_ERR ''%ld roots were still live at exit'' 2] \<and>
      last (trace s') = Log W_LOG_DBG ''all roots are gone''"
proof -
  have t0: "time_call stuck_poll_env 0 = 1000" and l: "live_roots_load stuck_poll_env k = 2" for k
    by (simp_all add: stuck_poll_env_def)
  have tr0: "trace example_state = []" by (simp add: example_state_def)
  have clock: "sleeping_clock stuck_poll_env \<or>
      time_call stuck_poll_env 0 + 3 < time_call stuck_poll_env (Suc 17)"
    using stuck_clock by simp
  from shutdown_poll_terminates [OF example_state_ok clock]
  obtain n s' where n: "n \<le> 17"
    and whole: "w_root_free_watched_roots stuck_poll_env example_state = Ok s'"
    and sl: "sleeps (trace s') = map backoff [0..<n]"
    and ex: "poll_exits stuck_poll_env 1000 (Suc n)"
    and er: "filter is_error (trace s') =
        [LogNum W_LOG_ERR ''%ld roots were still live at exit'' 2]"
    and la: "last (trace s') = Log W_LOG_DBG ''all roots are gone''"
    using stuck_clock by (auto simp: t0 l tr0)
  from stuck_exit_round [OF n ex] have "n = 17" .
  with whole sl er la show ?thesis by simp
qed

end
